theory Spec2Isabelle
  imports Main "HOL-Library.Sublist"
begin

section \<open>Strings and errors\<close>

text \<open>
  Python strings are modelled as \<open>string\<close> (lists of 8-bit characters); the prefixes and
  suffixes the program tests are ASCII. An exception is a value of type \<open>error\<close>:
  \<open>Exception msg\<close> is Python's \<open>Exception(msg)\<close>, \<open>OSError p\<close> the error class the
  \<open>os\<close> module raises for the path \<open>p\<close>, \<open>AttributeError\<close> the error of a method
  call on \<open>None\<close>.
\<close>

datatype error = Exception string | OSError "string list" | AttributeError

definition startswith :: "string \<Rightarrow> string \<Rightarrow> bool" where
  "startswith s p = prefix p s"

definition endswith :: "string \<Rightarrow> string \<Rightarrow> bool" where
  "endswith s p = suffix p s"

text \<open>
  \<open>s.lower()\<close>, on ASCII strings: the letters \<open>A\<close> to \<open>Z\<close> become \<open>a\<close> to
  \<open>z\<close>, every other character stays.
\<close>

definition lower_char :: "char \<Rightarrow> char" where
  "lower_char c =
     (let n = (of_char c :: nat) in if 65 \<le> n \<and> n \<le> 90 then char_of (n + 32) else c)"

definition lower :: "string \<Rightarrow> string" where
  "lower s = map lower_char s"

text \<open>\<open>s.split("#")[0]\<close>: the part of \<open>s\<close> before its first \<open>#\<close> (all of \<open>s\<close> without one).\<close>

definition split_hash_head :: "string \<Rightarrow> string" where
  "split_hash_head s = takeWhile (\<lambda>c. c \<noteq> CHR ''#'') s"

text \<open>
  \<open>os.path.join(a, b)\<close> of \<open>posixpath\<close>, for two arguments: an absolute \<open>b\<close> replaces
  \<open>a\<close>; otherwise \<open>b\<close> is appended, after a separator unless \<open>a\<close> is empty or ends
  with one.
\<close>

definition os_path_join :: "string \<Rightarrow> string \<Rightarrow> string" where
  "os_path_join a b =
     (if startswith b ''/'' then b
      else if a = [] \<or> endswith a ''/'' then a @ b
      else a @ ''/'' @ b)"

section \<open>HTML dependency classification (\<open>scan_html_dependencies\<close>)\<close>

text \<open>
  The two result sets of \<open>scan_html_dependencies\<close>, as the pair
  \<open>(local_dependencies, remote_dependencies)\<close>.
\<close>

type_synonym dep_sets = "string set \<times> string set"

text \<open>The body of the inner loop (lines 229-236), for one raw dependency.\<close>

definition classify_dependency :: "string \<Rightarrow> dep_sets \<Rightarrow> dep_sets" where
  "classify_dependency raw acc =
     (let dependency = split_hash_head raw;
          local_dependencies = fst acc;
          remote_dependencies = snd acc
      in if length dependency = 0 \<or> startswith dependency ''mailto:'' then acc
         else if startswith dependency ''http:'' \<or> startswith dependency ''https:''
                 \<or> startswith dependency ''ftp:''
           then (local_dependencies, insert dependency remote_dependencies)
         else (insert dependency local_dependencies, remote_dependencies))"

text \<open>
  The inner loop over the dependencies of one file. An attribute written without a value
  reaches the loop as \<open>None\<close>, and \<open>None.split\<close> raises.
\<close>

fun classify_all :: "string option list \<Rightarrow> dep_sets \<Rightarrow> error + dep_sets" where
  "classify_all [] acc = Inr acc"
| "classify_all (None # rest) acc = Inl AttributeError"
| "classify_all (Some raw # rest) acc = classify_all rest (classify_dependency raw acc)"

text \<open>
  The outer loop over the HTML targets. \<open>scan\<close> stands for
  \<open>scan_single_html_dependencies\<close> (the HTML parser run on one file): it yields the
  attribute values found in a file, or the error raised while reading it.
\<close>

fun scan_targets ::
  "(string \<Rightarrow> error + string option list) \<Rightarrow> string list \<Rightarrow> dep_sets \<Rightarrow> error + dep_sets" where
  "scan_targets scan [] acc = Inr acc"
| "scan_targets scan (tar_html # rest) acc =
     (case scan tar_html of
        Inl e \<Rightarrow> Inl e
      | Inr dependencies \<Rightarrow>
          (case classify_all dependencies acc of
             Inl e \<Rightarrow> Inl e
           | Inr acc' \<Rightarrow> scan_targets scan rest acc'))"

definition scan_html_dependencies ::
  "(string \<Rightarrow> error + string option list) \<Rightarrow> string list \<Rightarrow> error + dep_sets" where
  "scan_html_dependencies scan html_targets = scan_targets scan html_targets ({}, {})"

text \<open>All raw dependency strings the scan of the targets yields, in order.\<close>

definition raw_dependencies ::
  "(string \<Rightarrow> error + string option list) \<Rightarrow> string list \<Rightarrow> string list" where
  "raw_dependencies scan html_targets =
     concat (map (\<lambda>t. case scan t of Inl e \<Rightarrow> [] | Inr ds \<Rightarrow> List.map_filter id ds)
               html_targets)"

text \<open>The classification in the words of the specification.\<close>

definition dropped :: "string \<Rightarrow> bool" where
  "dropped d = (d = [] \<or> prefix ''mailto:'' d)"

definition remote_scheme :: "string \<Rightarrow> bool" where
  "remote_scheme d = (prefix ''http:'' d \<or> prefix ''https:'' d \<or> prefix ''ftp:'' d)"

definition recognized_schemes :: "string list" where
  "recognized_schemes = [''mailto:'', ''http:'', ''https:'', ''ftp:'']"

section \<open>Dependency resolution (\<open>resolve_local_dependencies\<close>)\<close>

text \<open>
  The inner loop over the search paths (lines 245-250): the first joined path that is a
  regular file, or \<open>None\<close> when the loop ends with \<open>found = False\<close>. The file system
  enters through the test \<open>isfile\<close> (\<open>os.path.isfile\<close>).
\<close>

fun find_in_search_paths :: "(string \<Rightarrow> bool) \<Rightarrow> string \<Rightarrow> string list \<Rightarrow> string option" where
  "find_in_search_paths isfile dep [] = None"
| "find_in_search_paths isfile dep (search_path # rest) =
     (let src = os_path_join search_path dep
      in if isfile src then Some src else find_in_search_paths isfile dep rest)"

text \<open>
  The outer loop over the dependencies, with the list \<open>result\<close> built so far. The
  dependencies are a Python set; the list is the order in which the loop meets them.
\<close>

fun resolve_loop ::
  "(string \<Rightarrow> bool) \<Rightarrow> string list \<Rightarrow> string \<Rightarrow> string list \<Rightarrow> (string \<times> string) list
     \<Rightarrow> error + (string \<times> string) list" where
  "resolve_loop isfile [] target search_paths result = Inr result"
| "resolve_loop isfile (dep # deps) target search_paths result =
     (let tar = os_path_join target dep
      in case find_in_search_paths isfile dep search_paths of
           Some src \<Rightarrow> resolve_loop isfile deps target search_paths (result @ [(src, tar)])
         | None \<Rightarrow> Inl (Exception (''Cannot resolve dependency \"'' @ dep @ ''\"'')))"

definition resolve_local_dependencies ::
  "(string \<Rightarrow> bool) \<Rightarrow> string list \<Rightarrow> string \<Rightarrow> string list \<Rightarrow> error + (string \<times> string) list" where
  "resolve_local_dependencies isfile dependencies target search_paths =
     resolve_loop isfile dependencies target search_paths []"

text \<open>The first search root, in list order, under which the dependency is a regular file.\<close>

definition first_hit :: "(string \<Rightarrow> bool) \<Rightarrow> string \<Rightarrow> string list \<Rightarrow> nat \<Rightarrow> bool" where
  "first_hit isfile dep search_paths i =
     (i < length search_paths \<and> isfile (os_path_join (search_paths ! i) dep)
      \<and> (\<forall>j<i. \<not> isfile (os_path_join (search_paths ! j) dep)))"

definition unresolvable :: "(string \<Rightarrow> bool) \<Rightarrow> string list \<Rightarrow> string \<Rightarrow> bool" where
  "unresolvable isfile search_paths dep =
     (\<forall>r \<in> set search_paths. \<not> isfile (os_path_join r dep))"

section \<open>Build entries (\<open>build_makefile_entry\<close>, \<open>generate_dependency_makefile\<close>)\<close>

definition newline :: char where
  "newline = CHR 0x0A"

definition tab :: char where
  "tab = CHR 0x09"

text \<open>\<open>sep.join(xs)\<close> of Python strings.\<close>

fun str_join :: "string \<Rightarrow> string list \<Rightarrow> string" where
  "str_join sep [] = []"
| "str_join sep [x] = x"
| "str_join sep (x # y # ys) = x @ sep @ str_join sep (y # ys)"

text \<open>
  \<open>shlex.quote\<close>: the empty string becomes \<open>''\<close>; a string of the safe characters
  \<open>[A-Za-z0-9_@%+=:,./-]\<close> only is returned as it is; any other string is put in single
  quotes, each single quote inside it replaced by \<open>'"'"'\<close>.
\<close>

definition safe_char :: "char \<Rightarrow> bool" where
  "safe_char c =
     (let n = (of_char c :: nat)
      in (48 \<le> n \<and> n \<le> 57) \<or> (65 \<le> n \<and> n \<le> 90) \<or> (97 \<le> n \<and> n \<le> 122)
         \<or> c \<in> set ''_@%+=:,./-'')"

definition shlex_quote :: "string \<Rightarrow> string" where
  "shlex_quote s =
     (if s = [] then [CHR 0x27, CHR 0x27]
      else if list_all safe_char s then s
      else [CHR 0x27]
           @ concat (map (\<lambda>c. if c = CHR 0x27
                                then [CHR 0x27, CHR 0x22, CHR 0x27, CHR 0x22, CHR 0x27] else [c]) s)
           @ [CHR 0x27])"

text \<open>
  A makefile entry as \<open>build_makefile_entry\<close> returns it: the target, the quoted target
  and the text of the rule.
\<close>

type_synonym makefile_entry = "string \<times> string \<times> string"

definition build_makefile_entry ::
  "string \<Rightarrow> string list \<Rightarrow> (string \<times> string list) list \<Rightarrow> makefile_entry" where
  "build_makefile_entry target dependencies commands =
     (target, shlex_quote target,
      shlex_quote target @ '': '' @ str_join '' '' (map shlex_quote dependencies)
        @ [newline, tab]
        @ str_join [newline, tab]
            (map (\<lambda>c. fst c @ '' '' @ str_join '' '' (map shlex_quote (snd c))) commands)
        @ [newline])"

definition build_convert_command :: "string \<Rightarrow> string \<Rightarrow> string list" where
  "build_convert_command src tar = [src, ''-resize'', ''921600@>'', ''-strip'', tar]"

definition build_guetzli_command :: "string \<Rightarrow> string \<Rightarrow> string list" where
  "build_guetzli_command src tar = [''--quality'', ''84'', src, tar]"

text \<open>
  \<open>os.path.dirname\<close> of \<open>posixpath\<close>: the path up to and including its last slash, with
  the trailing slashes removed unless it consists of slashes only.
\<close>

definition os_path_dirname :: "string \<Rightarrow> string" where
  "os_path_dirname p =
     (let head = rev (dropWhile (\<lambda>c. c \<noteq> CHR ''/'') (rev p))
      in if head \<noteq> [] \<and> head \<noteq> replicate (length head) (CHR ''/'')
         then rev (dropWhile (\<lambda>c. c = CHR ''/'') (rev head))
         else head)"

text \<open>
  The random generator is the sequence of its future draws: \<open>random.choice(seq)\<close> takes
  the next draw as an index into \<open>seq\<close> and leaves the rest of the sequence.
\<close>

type_synonym rng = "nat \<Rightarrow> nat"

definition random_choice :: "'a list \<Rightarrow> rng \<Rightarrow> 'a \<times> rng" where
  "random_choice seq r = (seq ! (r 0 mod length seq), (\<lambda>i. r (Suc i)))"

definition alphabet :: string where
  "alphabet = ''abcdefghijklmnopqrstuvwxyz0123456789''"

fun random_str :: "nat \<Rightarrow> rng \<Rightarrow> string \<times> rng" where
  "random_str 0 r = ([], r)"
| "random_str (Suc n) r =
     (let (c, r') = random_choice alphabet r;
          (s, r'') = random_str n r'
      in (c # s, r''))"

text \<open>
  The loop of \<open>generate_dependency_makefile\<close> with the list \<open>entries\<close> built so far.
  \<open>file\<close> is the value of \<open>__file__\<close>, the path of the generator script.
\<close>

fun dependency_entries ::
  "string \<Rightarrow> (string \<times> string) list \<Rightarrow> rng \<Rightarrow> makefile_entry list \<Rightarrow> makefile_entry list \<times> rng" where
  "dependency_entries file [] r entries = (entries, r)"
| "dependency_entries file ((src, tar) # rest) r entries =
     (if endswith (lower tar) ''.jpg'' \<or> endswith (lower tar) ''.jpeg''
      then (let (suffix8, r') = random_str 8 r;
                tmp_tar = tar @ ''.'' @ suffix8 @ ''.png''
            in dependency_entries file rest r'
                 (entries @ [build_makefile_entry tar [src]
                    [(''mkdir'', [''-p'', os_path_dirname tar]),
                     (''convert'', build_convert_command src tmp_tar),
                     (''guetzli'', build_guetzli_command tmp_tar tar),
                     (''rm'', [tmp_tar])]]))
      else dependency_entries file rest r
             (entries @ [build_makefile_entry tar [file, src]
                [(''mkdir'', [''-p'', os_path_dirname tar]),
                 (''cp'', [src, tar])]]))"

definition generate_dependency_makefile ::
  "string \<Rightarrow> (string \<times> string) list \<Rightarrow> rng \<Rightarrow> makefile_entry list \<times> rng" where
  "generate_dependency_makefile file resolved_dependencies r =
     dependency_entries file resolved_dependencies r []"

text \<open>
  The dispatch test in the words of the specification: the target ends with \<open>.jpg\<close> or
  \<open>.jpeg\<close>, in any letter case.
\<close>

definition jpeg_target :: "string \<Rightarrow> bool" where
  "jpeg_target tar = (suffix ''.jpg'' (lower tar) \<or> suffix ''.jpeg'' (lower tar))"


text \<open>
  The entries in the words of the specification, written out as the text of the makefile rule
  (the target, a colon, the dependencies, then one line per action, each after a newline and
  a tab). The transcode entry of a source and target with the temporary file \<open>tmp\<close> has the
  source as its only dependency and the actions ensure-directory, resize to \<open>tmp\<close>,
  recompress \<open>tmp\<close> to the target, delete \<open>tmp\<close>; the copy entry has the generator
  script and the source as dependencies and the actions ensure-directory, copy.
\<close>

definition transcode_rule :: "string \<Rightarrow> string \<Rightarrow> string \<Rightarrow> makefile_entry" where
  "transcode_rule src tar tmp =
     (tar, shlex_quote tar,
      shlex_quote tar @ '': '' @ shlex_quote src
      @ [CHR 0x0A, CHR 0x09] @ ''mkdir -p '' @ shlex_quote (os_path_dirname tar)
      @ [CHR 0x0A, CHR 0x09] @ ''convert '' @ shlex_quote src
          @ '' -resize '' @ [CHR 0x27] @ ''921600@>'' @ [CHR 0x27] @ '' -strip '' @ shlex_quote tmp
      @ [CHR 0x0A, CHR 0x09] @ ''guetzli --quality 84 '' @ shlex_quote tmp @ '' '' @ shlex_quote tar
      @ [CHR 0x0A, CHR 0x09] @ ''rm '' @ shlex_quote tmp
      @ [CHR 0x0A])"

definition copy_rule :: "string \<Rightarrow> string \<Rightarrow> string \<Rightarrow> makefile_entry" where
  "copy_rule script src tar =
     (tar, shlex_quote tar,
      shlex_quote tar @ '': '' @ shlex_quote script @ '' '' @ shlex_quote src
      @ [CHR 0x0A, CHR 0x09] @ ''mkdir -p '' @ shlex_quote (os_path_dirname tar)
      @ [CHR 0x0A, CHR 0x09] @ ''cp '' @ shlex_quote src @ '' '' @ shlex_quote tar
      @ [CHR 0x0A])"

text \<open>
  The random suffix: the eight characters that the draws \<open>k\<close> to \<open>k + 7\<close> of the
  generator pick from the lower-case letters and digits.
\<close>

definition drawn_suffix :: "rng \<Rightarrow> nat \<Rightarrow> string" where
  "drawn_suffix r k =
     map (\<lambda>j. ''abcdefghijklmnopqrstuvwxyz0123456789'' ! (r (k + j) mod 36)) [0..<8]"

text \<open>The number of transcoded targets among resolved dependencies.\<close>

definition jpeg_count :: "(string \<times> string) list \<Rightarrow> nat" where
  "jpeg_count ds = length (filter (\<lambda>d. jpeg_target (snd d)) ds)"
section \<open>The file system\<close>

text \<open>
  A path is represented by the list of the components of its normalized absolute form
  (\<open>os.path.abspath\<close>, from the root of the file system); a relative path, such as an
  entry of the enumerator's result, by the list of its components: \<open>a/b/c.html\<close> is
  \<open>[a, b, c.html]\<close>, and the empty list is Python's empty path \<open>''\<close>. So
  \<open>os.path.join(p, name)\<close> is \<open>p @ [name]\<close>, and \<open>os.path.split(p)\<close> is
  \<open>(butlast p, last p)\<close>.

  The file system is the tree of its directory entries. A directory holds named nodes (the
  first entry of a name counts). A symbolic link is recorded with the canonical path it
  resolves to, from the root of the file system; a link whose target does not exist is
  dangling. Links make several paths name one directory, and a link to an ancestor makes a
  cycle.
\<close>

type_synonym path = "string list"

datatype node = File | Dir "(string \<times> node) list" | Symlink path

text \<open>The node at a path, no link followed.\<close>

fun lookup_node :: "node \<Rightarrow> path \<Rightarrow> node option" where
  "lookup_node n [] = Some n"
| "lookup_node (Dir es) (x # xs) =
     (case map_of es x of None \<Rightarrow> None | Some n \<Rightarrow> lookup_node n xs)"
| "lookup_node File (x # xs) = None"
| "lookup_node (Symlink t) (x # xs) = None"

text \<open>
  Path resolution as the operating system does it, following links: the canonical path
  and the node (never a link) a path leads to, or \<open>None\<close> when a component is missing, is
  not a directory, or is a dangling link.
\<close>

definition follow :: "node \<Rightarrow> path \<times> node \<Rightarrow> (path \<times> node) option" where
  "follow fs cn =
     (case snd cn of
        Symlink t \<Rightarrow>
          (case lookup_node fs t of
             None \<Rightarrow> None
           | Some (Symlink t') \<Rightarrow> None
           | Some n \<Rightarrow> Some (t, n))
      | n \<Rightarrow> Some cn)"

definition resolve_step :: "node \<Rightarrow> string \<Rightarrow> (path \<times> node) option \<Rightarrow> (path \<times> node) option" where
  "resolve_step fs x r =
     (case r of
        Some (cp, Dir es) \<Rightarrow>
          (case map_of es x of None \<Rightarrow> None | Some n \<Rightarrow> follow fs (cp @ [x], n))
      | _ \<Rightarrow> None)"

definition resolve :: "node \<Rightarrow> path \<Rightarrow> (path \<times> node) option" where
  "resolve fs p = fold (resolve_step fs) p (follow fs ([], fs))"

definition os_path_isfile :: "node \<Rightarrow> path \<Rightarrow> bool" where
  "os_path_isfile fs p = (case resolve fs p of Some (cp, File) \<Rightarrow> True | _ \<Rightarrow> False)"

definition os_path_isdir :: "node \<Rightarrow> path \<Rightarrow> bool" where
  "os_path_isdir fs p = (case resolve fs p of Some (cp, Dir es) \<Rightarrow> True | _ \<Rightarrow> False)"

text \<open>\<open>os.path.realpath\<close>: the canonical path; a path that does not resolve is left as it is.\<close>

definition os_path_realpath :: "node \<Rightarrow> path \<Rightarrow> path" where
  "os_path_realpath fs p = (case resolve fs p of Some (cp, n) \<Rightarrow> cp | None \<Rightarrow> p)"

text \<open>\<open>os.listdir\<close>: the names in a directory, or the error for a path that is not one.\<close>

definition os_listdir :: "node \<Rightarrow> path \<Rightarrow> error + string list" where
  "os_listdir fs p =
     (case resolve fs p of
        Some (cp, Dir es) \<Rightarrow> Inr (remdups (map fst es))
      | _ \<Rightarrow> Inl (OSError p))"

text \<open>
  \<open>os.path.relpath(p, start)\<close>, which compares the normalized absolute forms of its
  arguments: \<open>..\<close> for each component of \<open>start\<close> after the common prefix, then the
  rest of \<open>p\<close>; \<open>.\<close> when nothing is left.
\<close>

definition os_path_relpath :: "path \<Rightarrow> path \<Rightarrow> path" where
  "os_path_relpath p start =
     (let i = length (longest_common_prefix start p);
          rel_list = replicate (length start - i) ''..'' @ drop i p
      in if rel_list = [] then [''.''] else rel_list)"

section \<open>The file enumerator (\<open>find_all_files\<close>)\<close>

text \<open>
  The variables of the loop. \<open>listed\<close> is a history variable that the source does not
  have: the paths \<open>os.listdir\<close> has been called with, in order.
\<close>

record fa_state =
  path_stack :: "path list"
  visited_paths :: "path set"
  result :: "path list"
  listed :: "path list"

text \<open>The \<open>for\<close> loop over the names of the current directory (lines 88-94).\<close>

fun scan_dir ::
  "node \<Rightarrow> path \<Rightarrow> (path \<Rightarrow> bool) \<Rightarrow> bool \<Rightarrow> path \<Rightarrow> string list \<Rightarrow> fa_state \<Rightarrow> fa_state" where
  "scan_dir fs path flt include_dirs cur_path [] st = st"
| "scan_dir fs path flt include_dirs cur_path (name # names) st =
     (let f = cur_path @ [name]
      in scan_dir fs path flt include_dirs cur_path names
           (if os_path_isfile fs f \<and> flt f
              then st\<lparr>result := result st @ [os_path_relpath f path]\<rparr>
            else if os_path_isdir fs f
              then st\<lparr>path_stack := path_stack st @ [f],
                      result := (if include_dirs then result st @ [os_path_relpath f path]
                                 else result st)\<rparr>
            else st))"

text \<open>
  One round of the \<open>while\<close> loop (lines 78-94), for a non-empty stack: \<open>pop()\<close> takes the
  last element; \<open>Inl\<close> is the exception of \<open>os.listdir\<close>.
\<close>

definition fa_body ::
  "node \<Rightarrow> path \<Rightarrow> (path \<Rightarrow> bool) \<Rightarrow> bool \<Rightarrow> fa_state \<Rightarrow> error + fa_state" where
  "fa_body fs path flt include_dirs st =
     (let cur_path = last (path_stack st);
          st1 = st\<lparr>path_stack := butlast (path_stack st)\<rparr>;
          real_path = os_path_realpath fs cur_path
      in if real_path \<in> visited_paths st1 then Inr st1
         else (let st2 = st1\<lparr>visited_paths := insert real_path (visited_paths st1)\<rparr>
               in case os_listdir fs cur_path of
                    Inl e \<Rightarrow> Inl e
                  | Inr names \<Rightarrow>
                      Inr (scan_dir fs path flt include_dirs cur_path names
                             (st2\<lparr>listed := listed st2 @ [cur_path]\<rparr>))))"

text \<open>
  The \<open>while\<close> loop. It is a partial function: \<open>None\<close> would be a loop that runs
  forever.
\<close>

partial_function (option) fa_while ::
  "node \<Rightarrow> path \<Rightarrow> (path \<Rightarrow> bool) \<Rightarrow> bool \<Rightarrow> fa_state \<Rightarrow> (error + fa_state) option" where
  "fa_while fs path flt include_dirs st =
     (if path_stack st = [] then Some (Inr st)
      else (case fa_body fs path flt include_dirs st of
              Inl e \<Rightarrow> Some (Inl e)
            | Inr st' \<Rightarrow> fa_while fs path flt include_dirs st'))"

declare fa_while.simps [code]

definition fa_init :: "path \<Rightarrow> fa_state" where
  "fa_init path = \<lparr>path_stack = [path], visited_paths = {}, result = [], listed = []\<rparr>"

definition find_all_files ::
  "node \<Rightarrow> path \<Rightarrow> (path \<Rightarrow> bool) \<Rightarrow> bool \<Rightarrow> (error + path list) option" where
  "find_all_files fs path flt include_dirs =
     map_option (map_sum id result) (fa_while fs path flt include_dirs (fa_init path))"

section \<open>Stale files (\<open>find_stale_files\<close> and the deletion loop of the main program)\<close>

text \<open>The inner \<open>while\<close> loop of \<open>find_stale_files\<close> (lines 288-290).\<close>

function add_with_ancestors :: "path \<Rightarrow> path set \<Rightarrow> path set" where
  "add_with_ancestors expected_file file_set =
     (if expected_file = [] then file_set
      else add_with_ancestors (butlast expected_file) (insert expected_file file_set))"
  by pat_completeness auto
termination
  by (relation "measure (\<lambda>(p, S). length p)") auto

definition expected_file_set :: "path \<Rightarrow> path list \<Rightarrow> path set" where
  "expected_file_set path expected_files =
     fold (\<lambda>expected_file file_set.
             add_with_ancestors (os_path_relpath expected_file path) file_set)
       expected_files {}"

definition find_stale_files :: "node \<Rightarrow> path \<Rightarrow> path list \<Rightarrow> (error + path list) option" where
  "find_stale_files fs path expected_files =
     map_option
       (map_sum id (\<lambda>files. filter (\<lambda>f. f \<notin> expected_file_set path expected_files) (rev files)))
       (find_all_files fs path (\<lambda>f. True) True)"

text \<open>Removing the entry \<open>x\<close> from the directory at the canonical path \<open>cp\<close>.\<close>

fun unlink :: "node \<Rightarrow> path \<Rightarrow> string \<Rightarrow> node" where
  "unlink (Dir es) [] x = Dir (filter (\<lambda>e. fst e \<noteq> x) es)"
| "unlink (Dir es) (y # ys) x =
     Dir (map (\<lambda>e. if fst e = y then (fst e, unlink (snd e) ys x) else e) es)"
| "unlink File p x = File"
| "unlink (Symlink t) p x = Symlink t"

text \<open>
  \<open>os.rmdir\<close> removes an empty directory and fails on anything else, a link to a
  directory included; \<open>os.remove\<close> removes a file or a link and fails on a directory. Both
  look the last component up in its parent directory without following it.
\<close>

definition os_rmdir :: "node \<Rightarrow> path \<Rightarrow> error + node" where
  "os_rmdir fs f =
     (if f = [] then Inl (OSError f)
      else case resolve fs (butlast f) of
             Some (cp, Dir es) \<Rightarrow>
               (case map_of es (last f) of
                  Some (Dir []) \<Rightarrow> Inr (unlink fs cp (last f))
                | _ \<Rightarrow> Inl (OSError f))
           | _ \<Rightarrow> Inl (OSError f))"

definition os_remove :: "node \<Rightarrow> path \<Rightarrow> error + node" where
  "os_remove fs f =
     (if f = [] then Inl (OSError f)
      else case resolve fs (butlast f) of
             Some (cp, Dir es) \<Rightarrow>
               (case map_of es (last f) of
                  Some File \<Rightarrow> Inr (unlink fs cp (last f))
                | Some (Symlink t) \<Rightarrow> Inr (unlink fs cp (last f))
                | _ \<Rightarrow> Inl (OSError f))
           | _ \<Rightarrow> Inl (OSError f))"

text \<open>
  The deletion loop of the main program (lines 332-338); \<open>os.path.join(target, stale_file)\<close>
  is \<open>target @ stale_file\<close>. The log line of each round is left out.
\<close>

fun delete_stale :: "node \<Rightarrow> path \<Rightarrow> path list \<Rightarrow> error + node" where
  "delete_stale fs target [] = Inr fs"
| "delete_stale fs target (stale_file # rest) =
     (let f = target @ stale_file
      in if os_path_isdir fs f
         then (case os_rmdir fs f of
                 Inl e \<Rightarrow> Inl e
               | Inr fs' \<Rightarrow> delete_stale fs' target rest)
         else (case os_remove fs f of
                 Inl e \<Rightarrow> Inl e
               | Inr fs' \<Rightarrow> delete_stale fs' target rest))"

text \<open>
  The stale-file step of the main program (lines 328-338): it yields the stale paths, in the
  order of their deletion, and the file system left.
\<close>

definition reconcile :: "node \<Rightarrow> path \<Rightarrow> path list \<Rightarrow> (error + path list \<times> node) option" where
  "reconcile fs target expected_files =
     (case find_stale_files fs target expected_files of
        None \<Rightarrow> None
      | Some (Inl e) \<Rightarrow> Some (Inl e)
      | Some (Inr stale_files) \<Rightarrow>
          Some (case delete_stale fs target stale_files of
                  Inl e \<Rightarrow> Inl e
                | Inr fs' \<Rightarrow> Inr (stale_files, fs')))"

section \<open>Notions used to state and prove the properties\<close>

text \<open>The canonical paths of the directories of a file system.\<close>

definition canonical_dirs :: "node \<Rightarrow> path set" where
  "canonical_dirs fs = {cp. \<exists>es. lookup_node fs cp = Some (Dir es)}"

text \<open>
  An entry qualifies for the result of the enumerator when it is a regular file that
  satisfies the filter or, with \<open>include_dirs\<close>, a directory.
\<close>

definition qualifies :: "node \<Rightarrow> (path \<Rightarrow> bool) \<Rightarrow> bool \<Rightarrow> path \<Rightarrow> bool" where
  "qualifies fs flt include_dirs f =
     ((os_path_isfile fs f \<and> flt f) \<or> (os_path_isdir fs f \<and> include_dirs))"

text \<open>
  No two directory paths under the starting path have the same canonical form: no symbolic
  link makes a second name for a directory of the tree.
\<close>

definition alias_free :: "node \<Rightarrow> path \<Rightarrow> bool" where
  "alias_free fs path = inj_on (os_path_realpath fs) {q. prefix path q \<and> os_path_isdir fs q}"

text \<open>
  A plain tree holds regular files and directories only; \<open>plain_at fs path\<close> says that
  \<open>path\<close> is the canonical path of a directory of \<open>fs\<close> whose subtree is plain.
\<close>

fun plain :: "node \<Rightarrow> bool" where
  "plain File = True"
| "plain (Dir es) = (\<forall>e\<in>set es. plain (snd e))"
| "plain (Symlink t) = False"

definition plain_at :: "node \<Rightarrow> path \<Rightarrow> bool" where
  "plain_at fs path =
     (case lookup_node fs path of Some (Dir es) \<Rightarrow> plain (Dir es) | _ \<Rightarrow> False)"

text \<open>What kind of entry a node is.\<close>

datatype kind = RegularFile | Directory | Link

fun kind_of :: "node \<Rightarrow> kind" where
  "kind_of File = RegularFile"
| "kind_of (Dir es) = Directory"
| "kind_of (Symlink t) = Link"

text \<open>A node that can be removed: a regular file or an empty directory.\<close>

definition leaf :: "node \<Rightarrow> bool" where
  "leaf k = (k = File \<or> k = Dir [])"

text \<open>
  The expected output set in the words of the specification: every expected target, made
  relative to the output root, and every ancestor directory of one.
\<close>

definition expected_output_set :: "path \<Rightarrow> path list \<Rightarrow> path set" where
  "expected_output_set path expected_files =
     {e. e \<noteq> [] \<and> (\<exists>t\<in>set expected_files. prefix e (os_path_relpath t path))}"

text \<open>The order in which the loop of the enumerator gets smaller.\<close>

definition fa_measure :: "node \<Rightarrow> (fa_state \<times> fa_state) set" where
  "fa_measure fs =
     inv_image (less_than <*lex*> less_than)
       (\<lambda>st. (card (canonical_dirs fs - visited_paths st), length (path_stack st)))"

text \<open>
  The invariant of the loop of the enumerator, and what it has found of the directories it
  has listed.
\<close>

definition fa_inv :: "node \<Rightarrow> path \<Rightarrow> (path \<Rightarrow> bool) \<Rightarrow> bool \<Rightarrow> fa_state \<Rightarrow> bool" where
  "fa_inv fs path flt include_dirs s =
     (visited_paths s = os_path_realpath fs ` set (listed s)
      \<and> distinct (map (os_path_realpath fs) (listed s))
      \<and> (\<forall>q\<in>set (path_stack s) \<union> set (listed s).
            os_path_isdir fs q \<and> prefix path q \<and> (q \<noteq> path \<longrightarrow> butlast q \<in> set (listed s)))
      \<and> distinct (path_stack s)
      \<and> set (path_stack s) \<inter> set (listed s) = {}
      \<and> (\<forall>e\<in>set (result s).
            e \<noteq> [] \<and> path @ butlast e \<in> set (listed s) \<and> qualifies fs flt include_dirs (path @ e))
      \<and> distinct (result s)
      \<and> sorted_wrt (\<lambda>x y. \<not> strict_prefix y x) (result s))"

definition fa_complete :: "node \<Rightarrow> path \<Rightarrow> (path \<Rightarrow> bool) \<Rightarrow> bool \<Rightarrow> fa_state \<Rightarrow> bool" where
  "fa_complete fs path flt include_dirs s =
     (path \<in> set (listed s) \<union> set (path_stack s)
      \<and> (\<forall>c\<in>set (listed s). \<forall>x.
            (os_path_isdir fs (c @ [x]) \<longrightarrow> c @ [x] \<in> set (listed s) \<union> set (path_stack s))
          \<and> (qualifies fs flt include_dirs (c @ [x])
                \<longrightarrow> drop (length path) (c @ [x]) \<in> set (result s))))"

text \<open>
  Example file systems: the tree of the reconciler example; and an output directory
  \<open>out\<close> in which \<open>b\<close> is a link to the directory \<open>a\<close> and \<open>a/loop\<close> a link back to
  \<open>out\<close>, which makes a cycle.
\<close>

definition example_tree :: node where
  "example_tree =
     Dir [(''a'', Dir [(''b'', Dir [(''c.html'', File), (''stale.txt'', File)]),
                       (''stale_dir'', Dir [(''x.txt'', File)])])]"

definition example_links :: node where
  "example_links =
     Dir [(''out'', Dir [(''a'', Dir [(''f'', File), (''loop'', Symlink [''out''])]),
                         (''b'', Symlink [''out'', ''a''])])]"

text \<open>
  An output root in which \<open>ln\<close> is a symbolic link to the directory \<open>d\<close>, so that
  the files of \<open>d\<close> have two paths each.
\<close>

definition example_alias :: node where
  "example_alias =
     Dir [(''out'', Dir [(''d'', Dir [(''k'', File), (''m'', File)]),
                         (''ln'', Symlink [''out'', ''d''])])]"

section \<open>The main program (lines 299-343)\<close>

text \<open>
  A record of the log: \<open>logger.info(msg)\<close> writes \<open>Info msg\<close>; \<open>logger.exception(msg)\<close>
  writes \<open>ErrorWithTraceback msg e\<close>, the message at level ERROR together with the
  traceback of the exception \<open>e\<close> being handled.
\<close>

datatype log_record = Info string | ErrorWithTraceback string error

text \<open>
  A stage of the pipeline acts on the world (the file system and the values the program
  holds): it yields the world it leaves, the log records it writes, and the exception it
  raises, if any. The stages of the \<open>try\<close> block, in order: the check of the target and
  source directories (lines 300-305); the first-stage makefile and its run (308-312); the
  scan of the HTML files (315-316); the resolution (319-321); the dependency makefile and
  its run (324-325); the search for stale files and their deletion (328-338).
\<close>

type_synonym 'w stage = "'w \<Rightarrow> 'w \<times> log_record list \<times> error option"

record 'w pipeline =
  check_directories :: "'w stage"
  build_html :: "'w stage"
  scan_dependencies :: "'w stage"
  resolve_dependencies :: "'w stage"
  build_assets :: "'w stage"
  delete_stale_files :: "'w stage"

text \<open>
  The statements of the \<open>try\<close> block: each stage with the \<open>logger.info\<close> lines that
  come before it.
\<close>

definition try_block :: "'w pipeline \<Rightarrow> (log_record list \<times> 'w stage) list" where
  "try_block p =
     [([], check_directories p),
      ([Info ''Building HTML from Markdown...''], build_html p),
      ([Info ''Scanning HTML dependencies...''], scan_dependencies p),
      ([Info ''Resolving dependencies...''], resolve_dependencies p),
      ([Info ''Copying and transforming media files...''], build_assets p),
      ([Info ''Scanning for stale files...''], delete_stale_files p)]"

text \<open>
  Running statements in sequence: an exception ends the sequence, and the statements after
  the one that raised it are not run.
\<close>

fun run_stages ::
  "(log_record list \<times> 'w stage) list \<Rightarrow> 'w \<Rightarrow> log_record list \<Rightarrow> 'w \<times> log_record list \<times> error option" where
  "run_stages [] w log = (w, log, None)"
| "run_stages ((infos, stage) # rest) w log =
     (case stage w of
        (w', out, Some e) \<Rightarrow> (w', log @ infos @ out, Some e)
      | (w', out, None) \<Rightarrow> run_stages rest w' (log @ infos @ out))"

text \<open>
  What a run of the program leaves: the world, the log, and the exit status of the process.
\<close>

record 'w outcome =
  final_world :: 'w
  final_log :: "log_record list"
  exit_status :: nat

text \<open>
  The \<open>try\<close> statement: without an exception the block ends with \<open>logger.info("Done!")\<close>;
  the bare \<open>except\<close> clause catches any exception and calls \<open>logger.exception("")\<close>. Either
  way the script then runs off its end, and the interpreter exits with status 0; the program
  has no call of \<open>sys.exit\<close>.
\<close>

definition main :: "'w pipeline \<Rightarrow> 'w \<Rightarrow> 'w outcome" where
  "main p w =
     (case run_stages (try_block p) w [] of
        (w', log, None) \<Rightarrow>
          \<lparr>final_world = w', final_log = log @ [Info ''Done!''], exit_status = 0\<rparr>
      | (w', log, Some e) \<Rightarrow>
          \<lparr>final_world = w', final_log = log @ [ErrorWithTraceback [] e], exit_status = 0\<rparr>)"

text \<open>
  A run in which the target exists and is not a directory: the check raises, and the other
  stages would succeed.
\<close>

definition succeeding_stage :: "unit stage" where
  "succeeding_stage w = (w, [], None)"

definition target_not_directory :: "unit stage" where
  "target_not_directory w = (w, [], Some (Exception ''Target must be a directory!''))"

definition bad_target_pipeline :: "unit pipeline" where
  "bad_target_pipeline =
     \<lparr>check_directories = target_not_directory, build_html = succeeding_stage,
      scan_dependencies = succeeding_stage, resolve_dependencies = succeeding_stage,
      build_assets = succeeding_stage, delete_stale_files = succeeding_stage\<rparr>"

text \<open>A run in which a local dependency is found under no search path.\<close>

definition missing_dependency :: "unit stage" where
  "missing_dependency w = (w, [], Some (Exception ''Cannot resolve dependency \"img/x.png\"''))"

definition unresolved_pipeline :: "unit pipeline" where
  "unresolved_pipeline =
     \<lparr>check_directories = succeeding_stage, build_html = succeeding_stage,
      scan_dependencies = succeeding_stage, resolve_dependencies = missing_dependency,
      build_assets = succeeding_stage, delete_stale_files = succeeding_stage\<rparr>"

section \<open>Properties of the dependency classification\<close>

lemma fold_classify:
  "fold classify_dependency ds (L, R) =
     (L \<union> {d. \<exists>raw\<in>set ds. d = split_hash_head raw \<and> \<not> dropped d \<and> \<not> remote_scheme d},
      R \<union> {d. \<exists>raw\<in>set ds. d = split_hash_head raw \<and> \<not> dropped d \<and> remote_scheme d})"
proof (induction ds arbitrary: L R)
  case Nil
  show ?case by simp
next
  case (Cons a ds)
  have step: "classify_dependency a (L, R) =
      (if dropped (split_hash_head a) then (L, R)
       else if remote_scheme (split_hash_head a) then (L, insert (split_hash_head a) R)
       else (insert (split_hash_head a) L, R))"
    by (simp add: classify_dependency_def Let_def dropped_def remote_scheme_def startswith_def)
  show ?case
    by (cases "dropped (split_hash_head a)"; cases "remote_scheme (split_hash_head a)")
       (auto simp: step Cons.IH)
qed

lemma classify_all_fold:
  "classify_all ds acc = Inr acc' \<Longrightarrow>
     acc' = fold classify_dependency (List.map_filter id ds) acc"
proof (induction ds acc rule: classify_all.induct)
  case (1 acc)
  then show ?case by (simp add: List.map_filter_simps)
next
  case (2 rest acc)
  then show ?case by simp
next
  case (3 raw rest acc)
  then show ?case by (simp add: List.map_filter_simps)
qed

lemma scan_targets_sets:
  "scan_targets scan ts (L, R) = Inr (L', R') \<Longrightarrow>
     L' = L \<union> {d. \<exists>raw\<in>set (raw_dependencies scan ts). d = split_hash_head raw \<and> \<not> dropped d \<and> \<not> remote_scheme d}
   \<and> R' = R \<union> {d. \<exists>raw\<in>set (raw_dependencies scan ts). d = split_hash_head raw \<and> \<not> dropped d \<and> remote_scheme d}"
proof (induction ts arbitrary: L R)
  case Nil
  then show ?case by (simp add: raw_dependencies_def)
next
  case (Cons t ts)
  from Cons.prems obtain ds where ds: "scan t = Inr ds"
    by (cases "scan t") auto
  from Cons.prems ds obtain acc where acc: "classify_all ds (L, R) = Inr acc"
    and rest: "scan_targets scan ts acc = Inr (L', R')"
    by (cases "classify_all ds (L, R)") auto
  have raw: "set (raw_dependencies scan (t # ts))
      = set (List.map_filter id ds) \<union> set (raw_dependencies scan ts)"
    by (simp add: raw_dependencies_def ds)
  from classify_all_fold[OF acc]
  have "acc = fold classify_dependency (List.map_filter id ds) (L, R)" .
  with rest have
    "scan_targets scan ts (fold classify_dependency (List.map_filter id ds) (L, R)) = Inr (L', R')"
    by simp
  from Cons.IH[OF this[unfolded fold_classify]] show ?case
    unfolding raw by blast
qed

lemma scan_html_dependencies_sets:
  assumes "scan_html_dependencies scan html_targets = Inr (L, R)"
  shows "L = {d. \<exists>raw\<in>set (raw_dependencies scan html_targets).
                  d = split_hash_head raw \<and> \<not> dropped d \<and> \<not> remote_scheme d}"
    and "R = {d. \<exists>raw\<in>set (raw_dependencies scan html_targets).
                  d = split_hash_head raw \<and> \<not> dropped d \<and> remote_scheme d}"
  using scan_targets_sets[OF assms[unfolded scan_html_dependencies_def]] by auto

lemma split_hash_head_no_hash: "CHR ''#'' \<notin> set (split_hash_head s)"
  unfolding split_hash_head_def by (induction s) auto

lemma split_hash_head_prefix: "prefix (split_hash_head s) s"
  unfolding split_hash_head_def by (simp add: takeWhile_is_prefix)


lemma split_hash_head_rest:
  "\<exists>rest. raw = split_hash_head raw @ rest \<and> (rest = [] \<or> hd rest = CHR ''#'')"
proof -
  have "raw = split_hash_head raw @ dropWhile (\<lambda>c. c \<noteq> CHR ''#'') raw"
    by (simp add: split_hash_head_def)
  moreover have "dropWhile (\<lambda>c. c \<noteq> CHR ''#'') raw = []
      \<or> hd (dropWhile (\<lambda>c. c \<noteq> CHR ''#'') raw) = CHR ''#''"
    using hd_dropWhile[of "\<lambda>c. c \<noteq> CHR ''#''" raw] by blast
  ultimately show ?thesis by blast
qed

text \<open>
  Claim C3. The classification is a partition: after a successful scan, the local set holds
  exactly the fragment-stripped dependencies that are neither dropped nor remote, the remote
  set exactly those that are not dropped and start with \<open>http:\<close>, \<open>https:\<close> or
  \<open>ftp:\<close>; a stripped dependency is in neither set if and only if it is empty or starts
  with \<open>mailto:\<close>, and it is never in both. Stripping keeps the part before the first
  \<open>#\<close>. Both results are sets, so duplicates collapse.
\<close>

theorem classify_partition:
  assumes "scan_html_dependencies scan html_targets = Inr (local_dependencies, remote_dependencies)"
  shows "local_dependencies =
           {d. \<exists>raw\<in>set (raw_dependencies scan html_targets).
                 d = split_hash_head raw \<and> \<not> dropped d \<and> \<not> remote_scheme d}
       \<and> remote_dependencies =
           {d. \<exists>raw\<in>set (raw_dependencies scan html_targets).
                 d = split_hash_head raw \<and> \<not> dropped d \<and> remote_scheme d}
       \<and> (\<forall>raw\<in>set (raw_dependencies scan html_targets).
             (\<exists>rest. raw = split_hash_head raw @ rest \<and> CHR ''#'' \<notin> set (split_hash_head raw)
                      \<and> (rest = [] \<or> hd rest = CHR ''#''))
           \<and> ((split_hash_head raw \<notin> local_dependencies \<and> split_hash_head raw \<notin> remote_dependencies)
                 \<longleftrightarrow> (split_hash_head raw = [] \<or> prefix ''mailto:'' (split_hash_head raw)))
           \<and> (split_hash_head raw \<in> remote_dependencies
                 \<longleftrightarrow> \<not> dropped (split_hash_head raw)
                     \<and> (prefix ''http:'' (split_hash_head raw) \<or> prefix ''https:'' (split_hash_head raw)
                          \<or> prefix ''ftp:'' (split_hash_head raw)))
           \<and> (split_hash_head raw \<in> local_dependencies
                 \<longleftrightarrow> \<not> dropped (split_hash_head raw) \<and> \<not> remote_scheme (split_hash_head raw))
           \<and> \<not> (split_hash_head raw \<in> local_dependencies \<and> split_hash_head raw \<in> remote_dependencies))"
proof -
  note sets = scan_html_dependencies_sets[OF assms]
  have per: "\<And>raw. raw \<in> set (raw_dependencies scan html_targets) \<Longrightarrow>
     (split_hash_head raw \<in> local_dependencies
        \<longleftrightarrow> \<not> dropped (split_hash_head raw) \<and> \<not> remote_scheme (split_hash_head raw))
   \<and> (split_hash_head raw \<in> remote_dependencies
        \<longleftrightarrow> \<not> dropped (split_hash_head raw) \<and> remote_scheme (split_hash_head raw))"
    unfolding sets by blast
  show ?thesis
  proof (intro conjI ballI)
    show "local_dependencies = {d. \<exists>raw\<in>set (raw_dependencies scan html_targets).
                 d = split_hash_head raw \<and> \<not> dropped d \<and> \<not> remote_scheme d}"
      by (rule sets(1))
    show "remote_dependencies = {d. \<exists>raw\<in>set (raw_dependencies scan html_targets).
                 d = split_hash_head raw \<and> \<not> dropped d \<and> remote_scheme d}"
      by (rule sets(2))
  next
    fix raw assume "raw \<in> set (raw_dependencies scan html_targets)"
    note p = per[OF this]
    show "\<exists>rest. raw = split_hash_head raw @ rest \<and> CHR ''#'' \<notin> set (split_hash_head raw)
                      \<and> (rest = [] \<or> hd rest = CHR ''#'')"
      using split_hash_head_rest[of raw] split_hash_head_no_hash[of raw] by blast
    show "(split_hash_head raw \<notin> local_dependencies \<and> split_hash_head raw \<notin> remote_dependencies)
                 \<longleftrightarrow> (split_hash_head raw = [] \<or> prefix ''mailto:'' (split_hash_head raw))"
      using p unfolding dropped_def by blast
    show "split_hash_head raw \<in> remote_dependencies
                 \<longleftrightarrow> \<not> dropped (split_hash_head raw)
                     \<and> (prefix ''http:'' (split_hash_head raw) \<or> prefix ''https:'' (split_hash_head raw)
                          \<or> prefix ''ftp:'' (split_hash_head raw))"
      using p unfolding remote_scheme_def by blast
    show "split_hash_head raw \<in> local_dependencies
                 \<longleftrightarrow> \<not> dropped (split_hash_head raw) \<and> \<not> remote_scheme (split_hash_head raw)"
      using p by blast
    show "\<not> (split_hash_head raw \<in> local_dependencies \<and> split_hash_head raw \<in> remote_dependencies)"
      using p by blast
  qed
qed

theorem classify_partition_witness:
  "scan_html_dependencies
     (\<lambda>t. Inr [Some ''img/a.png#frag'', Some ''mailto:a@b.c'', Some ''https://x.org/s.css'', Some ''#top'', Some ''img/a.png'', Some ''ftp://h/f''])
     [''out/index.html'']
   = Inr ({''img/a.png''}, {''https://x.org/s.css'', ''ftp://h/f''})
   \<and> split_hash_head ''img/a.png#frag'' = ''img/a.png''
   \<and> split_hash_head ''img/a.png#frag'' \<in> {''img/a.png''}
   \<and> split_hash_head ''#top'' \<notin> {''img/a.png''}
   \<and> \<not> (split_hash_head ''https://x.org/s.css'' \<in> {''img/a.png''}
         \<and> split_hash_head ''https://x.org/s.css'' \<in> {''https://x.org/s.css'', ''ftp://h/f''})"
proof -
  let ?scan = "\<lambda>t::string. (Inr [Some ''img/a.png#frag'', Some ''mailto:a@b.c'', Some ''https://x.org/s.css'', Some ''#top'', Some ''img/a.png'', Some ''ftp://h/f''] :: error + string option list)"
  have run: "scan_html_dependencies ?scan [''out/index.html'']
      = Inr ({''img/a.png''}, {''https://x.org/s.css'', ''ftp://h/f''})"
    by (simp add: scan_html_dependencies_def classify_dependency_def split_hash_head_def
        startswith_def Let_def insert_commute)
  have raws: "''https://x.org/s.css'' \<in> set (raw_dependencies ?scan [''out/index.html''])"
    by (simp add: raw_dependencies_def List.map_filter_simps)
  from classify_partition[OF run] raws
  have "\<not> (split_hash_head ''https://x.org/s.css'' \<in> {''img/a.png''}
         \<and> split_hash_head ''https://x.org/s.css'' \<in> {''https://x.org/s.css'', ''ftp://h/f''})"
    by blast
  with run show ?thesis by (simp add: split_hash_head_def)
qed

lemma lower_prefix: "prefix p s \<Longrightarrow> prefix (lower p) (lower s)"
  unfolding lower_def by (rule map_mono_prefix)

lemma lower_schemes: "sch \<in> set recognized_schemes \<Longrightarrow> lower sch = sch"
  unfolding recognized_schemes_def by (auto; code_simp)

lemma schemes_incomparable:
  "a \<in> set recognized_schemes \<Longrightarrow> b \<in> set recognized_schemes \<Longrightarrow> prefix a b \<Longrightarrow> a = b"
  unfolding recognized_schemes_def by auto

text \<open>
  Claim C10. Scheme matching is case-sensitive: a dependency whose stripped form starts with a
  recognized scheme only after lower-casing (such as \<open>HTTP://example.com/x.css\<close> or
  \<open>Mailto:a@b\<close>) is neither dropped nor remote; it is put into the local set.
\<close>

theorem scheme_match_case_sensitive:
  assumes run: "scan_html_dependencies scan html_targets = Inr (local_dependencies, remote_dependencies)"
    and raw: "raw \<in> set (raw_dependencies scan html_targets)"
    and sch: "sch \<in> set recognized_schemes"
    and low: "prefix sch (lower (split_hash_head raw))"
    and differs: "\<not> prefix sch (split_hash_head raw)"
  shows "split_hash_head raw \<in> local_dependencies \<and> split_hash_head raw \<notin> remote_dependencies"
proof -
  let ?d = "split_hash_head raw"
  have nonempty: "?d \<noteq> []"
    using low sch by (auto simp: recognized_schemes_def lower_def)
  have none: "\<not> prefix s ?d" if s: "s \<in> set recognized_schemes" for s
  proof
    assume "prefix s ?d"
    then have "prefix s (lower ?d)" using lower_prefix lower_schemes[OF s] by metis
    with low have "prefix s sch \<or> prefix sch s" by (metis prefix_same_cases)
    then have "s = sch" using schemes_incomparable s sch by metis
    with \<open>prefix s ?d\<close> differs show False by simp
  qed
  have "\<not> dropped ?d" "\<not> remote_scheme ?d"
    using nonempty none by (auto simp: dropped_def remote_scheme_def recognized_schemes_def)
  then show ?thesis
    using scan_html_dependencies_sets[OF run] raw by blast
qed

theorem scheme_match_case_sensitive_witness:
  "scan_html_dependencies (\<lambda>t. Inr [Some ''HTTP://example.com/x.css'', Some ''Mailto:a@b''])
     [''out/index.html''] = Inr ({''HTTP://example.com/x.css'', ''Mailto:a@b''}, {})
   \<and> split_hash_head ''HTTP://example.com/x.css'' \<in> {''HTTP://example.com/x.css'', ''Mailto:a@b''}
   \<and> split_hash_head ''HTTP://example.com/x.css'' \<notin> ({} :: string set)"
proof -
  let ?scan = "\<lambda>t::string. (Inr [Some ''HTTP://example.com/x.css'', Some ''Mailto:a@b''] :: error + string option list)"
  have run: "scan_html_dependencies ?scan [''out/index.html'']
      = Inr ({''HTTP://example.com/x.css'', ''Mailto:a@b''}, {})"
    by (simp add: scan_html_dependencies_def classify_dependency_def split_hash_head_def
        startswith_def Let_def insert_commute)
  have raw: "''HTTP://example.com/x.css'' \<in> set (raw_dependencies ?scan [''out/index.html''])"
    by (simp add: raw_dependencies_def)
  have sch: "''http:'' \<in> set recognized_schemes" by (simp add: recognized_schemes_def)
  have low: "prefix ''http:'' (lower (split_hash_head ''HTTP://example.com/x.css''))"
    by code_simp
  have differs: "\<not> prefix ''http:'' (split_hash_head ''HTTP://example.com/x.css'')"
    by (simp add: split_hash_head_def)
  from scheme_match_case_sensitive[OF run raw sch low differs] run show ?thesis by simp
qed

section \<open>Properties of the dependency resolution\<close>

lemma find_in_search_paths_None:
  "find_in_search_paths isfile dep sps = None \<longleftrightarrow> unresolvable isfile sps dep"
  by (induction sps) (auto simp: unresolvable_def Let_def)

lemma find_in_search_paths_Some:
  "find_in_search_paths isfile dep sps = Some src \<Longrightarrow>
     \<exists>i. first_hit isfile dep sps i \<and> src = os_path_join (sps ! i) dep"
proof (induction sps)
  case Nil
  then show ?case by simp
next
  case (Cons sp sps)
  show ?case
  proof (cases "isfile (os_path_join sp dep)")
    case True
    with Cons.prems have "src = os_path_join sp dep" by (simp add: Let_def)
    with True have "first_hit isfile dep (sp # sps) 0 \<and> src = os_path_join ((sp # sps) ! 0) dep"
      by (simp add: first_hit_def)
    then show ?thesis by blast
  next
    case False
    with Cons.prems have "find_in_search_paths isfile dep sps = Some src" by (simp add: Let_def)
    from Cons.IH[OF this] obtain i where i: "first_hit isfile dep sps i"
      "src = os_path_join (sps ! i) dep" by blast
    have "first_hit isfile dep (sp # sps) (Suc i)"
      using i(1) False unfolding first_hit_def
      by (auto simp: less_Suc_eq_0_disj)
    with i(2) show ?thesis by (intro exI[of _ "Suc i"]) simp
  qed
qed

lemma resolve_loop_ok:
  "\<forall>d\<in>set deps. \<not> unresolvable isfile sps d \<Longrightarrow>
   \<exists>new. resolve_loop isfile deps target sps resolved = Inr (resolved @ new)
        \<and> length new = length deps
        \<and> (\<forall>n<length deps. \<exists>i. first_hit isfile (deps ! n) sps i
              \<and> new ! n = (os_path_join (sps ! i) (deps ! n), os_path_join target (deps ! n)))"
proof (induction deps arbitrary: resolved)
  case Nil
  then show ?case by simp
next
  case (Cons dep deps)
  from Cons.prems have "find_in_search_paths isfile dep sps \<noteq> None"
    by (simp add: find_in_search_paths_None)
  then obtain src where src: "find_in_search_paths isfile dep sps = Some src" by blast
  from find_in_search_paths_Some[OF src] obtain i where i: "first_hit isfile dep sps i"
    "src = os_path_join (sps ! i) dep" by blast
  from Cons.prems have "\<forall>d\<in>set deps. \<not> unresolvable isfile sps d" by simp
  from Cons.IH[OF this, of "resolved @ [(src, os_path_join target dep)]"]
  obtain new where new:
    "resolve_loop isfile deps target sps (resolved @ [(src, os_path_join target dep)])
       = Inr ((resolved @ [(src, os_path_join target dep)]) @ new)"
    "length new = length deps"
    "\<forall>n<length deps. \<exists>i. first_hit isfile (deps ! n) sps i
        \<and> new ! n = (os_path_join (sps ! i) (deps ! n), os_path_join target (deps ! n))"
    by blast
  let ?new = "(src, os_path_join target dep) # new"
  have "resolve_loop isfile (dep # deps) target sps resolved = Inr (resolved @ ?new)"
    using src new(1) by (simp add: Let_def)
  moreover have "length ?new = length (dep # deps)" using new(2) by simp
  moreover have "\<forall>n<length (dep # deps). \<exists>i. first_hit isfile ((dep # deps) ! n) sps i
        \<and> ?new ! n = (os_path_join (sps ! i) ((dep # deps) ! n), os_path_join target ((dep # deps) ! n))"
  proof (intro allI impI)
    fix n assume n: "n < length (dep # deps)"
    show "\<exists>i. first_hit isfile ((dep # deps) ! n) sps i
        \<and> ?new ! n = (os_path_join (sps ! i) ((dep # deps) ! n), os_path_join target ((dep # deps) ! n))"
    proof (cases n)
      case 0
      then show ?thesis using i by auto
    next
      case (Suc m)
      with n new(3) show ?thesis by simp
    qed
  qed
  ultimately show ?case by blast
qed

lemma resolve_loop_fail:
  "\<forall>d\<in>set before. \<not> unresolvable isfile sps d \<Longrightarrow> unresolvable isfile sps dep \<Longrightarrow>
   resolve_loop isfile (before @ dep # after) target sps resolved
     = Inl (Exception (''Cannot resolve dependency \"'' @ dep @ ''\"''))"
proof (induction before arbitrary: resolved)
  case Nil
  then show ?case by (simp add: find_in_search_paths_None[THEN iffD2] Let_def)
next
  case (Cons b before)
  from Cons.prems have "find_in_search_paths isfile b sps \<noteq> None"
    by (simp add: find_in_search_paths_None)
  then obtain src where src: "find_in_search_paths isfile b sps = Some src" by blast
  with Cons show ?case by (simp add: Let_def)
qed

text \<open>
  Claim C4. When every dependency is a regular file under some search root, resolution
  returns one pair per dependency, in order: the source is the dependency joined to the first
  search root (in list order) under which the joined path is a regular file, the target is
  the dependency joined to the output root. With roots \<open>[A, B]\<close> and the file under
  both, the source comes from \<open>A\<close>.
\<close>

theorem resolve_first_hit_wins:
  assumes "\<forall>d\<in>set dependencies. \<not> unresolvable isfile search_paths d"
  shows "\<exists>resolved. resolve_local_dependencies isfile dependencies target search_paths = Inr resolved
        \<and> length resolved = length dependencies
        \<and> (\<forall>n<length dependencies. \<exists>i. first_hit isfile (dependencies ! n) search_paths i
              \<and> resolved ! n = (os_path_join (search_paths ! i) (dependencies ! n),
                               os_path_join target (dependencies ! n)))"
  using resolve_loop_ok[OF assms, of target "[]"]
  unfolding resolve_local_dependencies_def by simp

theorem resolve_first_hit_wins_witness:
  "resolve_local_dependencies (\<lambda>p. p = ''A/css/x.css'' \<or> p = ''B/css/x.css'')
      [''css/x.css''] ''out'' [''A'', ''B'']
    = Inr [(''A/css/x.css'', ''out/css/x.css'')]
   \<and> first_hit (\<lambda>p. p = ''A/css/x.css'' \<or> p = ''B/css/x.css'') ''css/x.css'' [''A'', ''B''] 0"
proof -
  let ?isfile = "\<lambda>p::string. p = ''A/css/x.css'' \<or> p = ''B/css/x.css''"
  have ok: "\<forall>d\<in>set [''css/x.css'']. \<not> unresolvable ?isfile [''A'', ''B''] d"
    by (simp add: unresolvable_def os_path_join_def startswith_def endswith_def suffix_to_prefix)
  from resolve_first_hit_wins[OF ok, of "''out''"]
  obtain resolved i where r:
    "resolve_local_dependencies ?isfile [''css/x.css''] ''out'' [''A'', ''B''] = Inr resolved"
    "length resolved = 1"
    "first_hit ?isfile ''css/x.css'' [''A'', ''B''] i"
    "resolved ! 0 = (os_path_join ([''A'', ''B''] ! i) ''css/x.css'', os_path_join ''out'' ''css/x.css'')"
    by auto
  have i0: "i = 0"
  proof (rule ccontr)
    assume "i \<noteq> 0"
    then have "0 < i" by simp
    with r(3) have "\<not> ?isfile (os_path_join ([''A'', ''B''] ! 0) ''css/x.css'')"
      unfolding first_hit_def by blast
    then show False by (simp add: os_path_join_def startswith_def endswith_def suffix_to_prefix)
  qed
  from r(2) obtain x where x: "resolved = [x]"
    by (cases resolved) auto
  with r(4) i0 have "resolved = [(''A/css/x.css'', ''out/css/x.css'')]"
    by (simp add: os_path_join_def startswith_def endswith_def suffix_to_prefix)
  with r(1) r(3) i0 show ?thesis by simp
qed

lemma takeWhile_upto: "x \<notin> set ys \<Longrightarrow> takeWhile (\<lambda>y. y \<noteq> x) (ys @ x # zs) = ys"
  by (induction ys) auto

text \<open>
  The resolver stops at the first dependency it cannot find. With two dependencies that are
  both found under no search path, the message names the first one; the second one is not
  found either, and the message does not name it.
\<close>

theorem resolve_unresolved_fails_counterexample:
  "unresolvable (\<lambda>p. False) [''static/'', ''content/''] ''y.css''
   \<and> ''y.css'' \<in> set [''x.css'', ''y.css'']
   \<and> resolve_local_dependencies (\<lambda>p. False) [''x.css'', ''y.css''] ''out'' [''static/'', ''content/'']
       = Inl (Exception ''Cannot resolve dependency \"x.css\"'')
   \<and> resolve_local_dependencies (\<lambda>p. False) [''x.css'', ''y.css''] ''out'' [''static/'', ''content/'']
       \<noteq> Inl (Exception ''Cannot resolve dependency \"y.css\"'')"
proof (intro conjI)
  show "unresolvable (\<lambda>p. False) [''static/'', ''content/''] ''y.css''"
    by (simp add: unresolvable_def)
  show "''y.css'' \<in> set [''x.css'', ''y.css'']" by simp
  show run: "resolve_local_dependencies (\<lambda>p. False) [''x.css'', ''y.css''] ''out''
         [''static/'', ''content/'']
       = Inl (Exception ''Cannot resolve dependency \"x.css\"'')"
    by (simp add: resolve_local_dependencies_def Let_def)
  show "resolve_local_dependencies (\<lambda>p. False) [''x.css'', ''y.css''] ''out''
         [''static/'', ''content/'']
       \<noteq> Inl (Exception ''Cannot resolve dependency \"y.css\"'')"
    unfolding run by simp
qed

text \<open>
  Claim C5, amended. When some dependency is a regular file under no search path, the
  resolution fails: it returns no list of resolved dependencies at all, but the exception
  whose message names the first dependency, in the order of the loop, that is found under no
  search path. That is the dependency in question itself when no earlier one of the list is
  missing too.
\<close>

theorem resolve_unresolved_fails:
  assumes "dep \<in> set dependencies" and "unresolvable isfile search_paths dep"
  shows "(\<exists>before d after. dependencies = before @ d # after
            \<and> (\<forall>x\<in>set before. \<not> unresolvable isfile search_paths x)
            \<and> unresolvable isfile search_paths d
            \<and> resolve_local_dependencies isfile dependencies target search_paths
                = Inl (Exception (''Cannot resolve dependency \"'' @ d @ ''\"'')))
       \<and> ((\<forall>x\<in>set (takeWhile (\<lambda>x. x \<noteq> dep) dependencies).
               \<not> unresolvable isfile search_paths x)
            \<longrightarrow> resolve_local_dependencies isfile dependencies target search_paths
                = Inl (Exception (''Cannot resolve dependency \"'' @ dep @ ''\"'')))"
proof
  from assms have "\<exists>x\<in>set dependencies. unresolvable isfile search_paths x" by blast
  from split_list_first_prop[OF this] obtain before d after where
    dec: "dependencies = before @ d # after" and d: "unresolvable isfile search_paths d"
    and bef: "\<forall>y\<in>set before. \<not> unresolvable isfile search_paths y" by blast
  from resolve_loop_fail[OF bef d, of after target "[]"]
  have "resolve_local_dependencies isfile dependencies target search_paths
          = Inl (Exception (''Cannot resolve dependency \"'' @ d @ ''\"''))"
    unfolding resolve_local_dependencies_def dec .
  with dec bef d
  show "\<exists>before d after. dependencies = before @ d # after
            \<and> (\<forall>x\<in>set before. \<not> unresolvable isfile search_paths x)
            \<and> unresolvable isfile search_paths d
            \<and> resolve_local_dependencies isfile dependencies target search_paths
                = Inl (Exception (''Cannot resolve dependency \"'' @ d @ ''\"''))"
    by blast
next
  show "(\<forall>x\<in>set (takeWhile (\<lambda>x. x \<noteq> dep) dependencies).
               \<not> unresolvable isfile search_paths x)
            \<longrightarrow> resolve_local_dependencies isfile dependencies target search_paths
                = Inl (Exception (''Cannot resolve dependency \"'' @ dep @ ''\"''))"
  proof
    assume ok: "\<forall>x\<in>set (takeWhile (\<lambda>x. x \<noteq> dep) dependencies).
               \<not> unresolvable isfile search_paths x"
    from split_list_first[OF assms(1)] obtain before after where
      dec: "dependencies = before @ dep # after" and nb: "dep \<notin> set before" by blast
    have "takeWhile (\<lambda>x. x \<noteq> dep) dependencies = before"
      unfolding dec using nb by (rule takeWhile_upto)
    with ok have bef: "\<forall>y\<in>set before. \<not> unresolvable isfile search_paths y" by simp
    from resolve_loop_fail[OF bef assms(2), of after target "[]"]
    show "resolve_local_dependencies isfile dependencies target search_paths
          = Inl (Exception (''Cannot resolve dependency \"'' @ dep @ ''\"''))"
      unfolding resolve_local_dependencies_def dec .
  qed
qed

theorem resolve_unresolved_fails_witness:
  "resolve_local_dependencies (\<lambda>p. p = ''static/a.css'') [''a.css'', ''img/missing.png'', ''b.js'']
      ''out'' [''static/'', ''content/'', ''out'']
    = Inl (Exception ''Cannot resolve dependency \"img/missing.png\"'')
   \<and> unresolvable (\<lambda>p. p = ''static/a.css'') [''static/'', ''content/'', ''out''] ''b.js''
   \<and> \<not> unresolvable (\<lambda>p. p = ''static/a.css'') [''static/'', ''content/'', ''out''] ''a.css''"
proof -
  let ?isfile = "\<lambda>p::string. p = ''static/a.css''"
  let ?deps = "[''a.css'', ''img/missing.png'', ''b.js'']"
  let ?sps = "[''static/'', ''content/'', ''out'']"
  have a: "''img/missing.png'' \<in> set ?deps" by simp
  have tw: "takeWhile (\<lambda>x. x \<noteq> ''img/missing.png'') ?deps = [''a.css'']" by simp
  have ra: "\<not> unresolvable ?isfile ?sps ''a.css''"
    by (simp add: unresolvable_def os_path_join_def startswith_def endswith_def suffix_to_prefix)
  have b: "\<forall>x\<in>set (takeWhile (\<lambda>x. x \<noteq> ''img/missing.png'') ?deps).
             \<not> unresolvable ?isfile ?sps x"
    unfolding tw using ra by simp
  have c: "unresolvable ?isfile ?sps ''img/missing.png''"
    by (simp add: unresolvable_def os_path_join_def startswith_def endswith_def suffix_to_prefix)
  have ub: "unresolvable ?isfile ?sps ''b.js''"
    by (simp add: unresolvable_def os_path_join_def startswith_def endswith_def suffix_to_prefix)
  from resolve_unresolved_fails[OF a c, of "''out''"]
  have "(\<forall>x\<in>set (takeWhile (\<lambda>x. x \<noteq> ''img/missing.png'') ?deps).
               \<not> unresolvable ?isfile ?sps x)
            \<longrightarrow> resolve_local_dependencies ?isfile ?deps ''out'' ?sps
                = Inl (Exception (''Cannot resolve dependency \"'' @ ''img/missing.png'' @ ''\"''))"
    by (rule conjunct2)
  from this[rule_format, OF b[rule_format]]
  have "resolve_local_dependencies ?isfile ?deps ''out'' ?sps
          = Inl (Exception ''Cannot resolve dependency \"img/missing.png\"'')"
    by simp
  with ub ra show ?thesis by simp
qed

section \<open>Properties of the asset build entries\<close>

lemma random_str_draws:
  "random_str n r = (map (\<lambda>j. alphabet ! (r j mod length alphabet)) [0..<n], (\<lambda>j. r (j + n)))"
proof (induction n arbitrary: r)
  case 0
  show ?case by simp
next
  case (Suc n)
  have c: "random_choice alphabet r = (alphabet ! (r 0 mod length alphabet), (\<lambda>i. r (Suc i)))"
    by (simp add: random_choice_def)
  show ?case
    unfolding random_str.simps c Suc.IH
    by (simp add: map_upt_Suc del: upt_Suc)
qed

lemma random_str_8: "random_str 8 r = (drawn_suffix r 0, (\<lambda>j. r (j + 8)))"
proof -
  have "length alphabet = 36" by (simp add: alphabet_def)
  then show ?thesis
    unfolding random_str_draws drawn_suffix_def alphabet_def by simp
qed

lemma drawn_suffix_shift: "drawn_suffix (\<lambda>j. r (j + n)) k = drawn_suffix r (n + k)"
  by (simp add: drawn_suffix_def add.commute add.left_commute)

lemma jpeg_target_iff:
  "(endswith (lower tar) ''.jpg'' \<or> endswith (lower tar) ''.jpeg'') = jpeg_target tar"
  by (simp add: endswith_def jpeg_target_def)

lemma quote_literals:
  "shlex_quote ''-p'' = ''-p''" "shlex_quote ''-resize'' = ''-resize''"
  "shlex_quote ''-strip'' = ''-strip''" "shlex_quote ''--quality'' = ''--quality''"
  "shlex_quote ''84'' = ''84''"
  "shlex_quote ''921600@>'' = [CHR 0x27] @ ''921600@>'' @ [CHR 0x27]"
  by code_simp+

lemma transcode_entry_text:
  "build_makefile_entry tar [src]
     [(''mkdir'', [''-p'', os_path_dirname tar]),
      (''convert'', build_convert_command src tmp),
      (''guetzli'', build_guetzli_command tmp tar),
      (''rm'', [tmp])]
   = transcode_rule src tar tmp"
  unfolding build_makefile_entry_def transcode_rule_def build_convert_command_def
    build_guetzli_command_def newline_def tab_def
  by (simp add: quote_literals)

lemma copy_entry_text:
  "build_makefile_entry tar [script, src]
     [(''mkdir'', [''-p'', os_path_dirname tar]), (''cp'', [src, tar])]
   = copy_rule script src tar"
  unfolding build_makefile_entry_def copy_rule_def newline_def tab_def
  by (simp add: quote_literals)


lemma dependency_entries_spec:
  "\<exists>new. dependency_entries script resolved r entries
           = (entries @ new, (\<lambda>j. r (j + 8 * jpeg_count resolved)))
     \<and> length new = length resolved
     \<and> (\<forall>i<length resolved.
           new ! i =
             (if jpeg_target (snd (resolved ! i))
              then transcode_rule (fst (resolved ! i)) (snd (resolved ! i))
                     (snd (resolved ! i) @ ''.''
                        @ drawn_suffix r (8 * jpeg_count (take i resolved)) @ ''.png'')
              else copy_rule script (fst (resolved ! i)) (snd (resolved ! i))))"
proof (induction resolved arbitrary: r entries)
  case Nil
  show ?case by (simp add: jpeg_count_def)
next
  case (Cons st rest)
  obtain src tar where st: "st = (src, tar)" by (cases st)
  define e where "e = (if jpeg_target tar
      then transcode_rule src tar (tar @ ''.'' @ drawn_suffix r 0 @ ''.png'')
      else copy_rule script src tar)"
  define n where "n = (if jpeg_target tar then 8 else 0::nat)"
  define r1 where "r1 = (\<lambda>j. r (j + n))"
  have step: "dependency_entries script (st # rest) r entries
      = dependency_entries script rest r1 (entries @ [e])"
    unfolding st e_def r1_def n_def
    by (simp add: jpeg_target_iff random_str_8 transcode_entry_text copy_entry_text Let_def)
  have cnt: "jpeg_count (st # xs) = (if jpeg_target tar then 1 else 0) + jpeg_count xs" for xs
    by (simp add: jpeg_count_def st)
  from Cons.IH[of r1 "entries @ [e]"] obtain new where new:
    "dependency_entries script rest r1 (entries @ [e])
       = ((entries @ [e]) @ new, (\<lambda>j. r1 (j + 8 * jpeg_count rest)))"
    "length new = length rest"
    "\<forall>i<length rest.
           new ! i =
             (if jpeg_target (snd (rest ! i))
              then transcode_rule (fst (rest ! i)) (snd (rest ! i))
                     (snd (rest ! i) @ ''.''
                        @ drawn_suffix r1 (8 * jpeg_count (take i rest)) @ ''.png'')
              else copy_rule script (fst (rest ! i)) (snd (rest ! i)))"
    by blast
  have gen: "(\<lambda>j. r1 (j + 8 * jpeg_count rest)) = (\<lambda>j. r (j + 8 * jpeg_count (st # rest)))"
    unfolding r1_def n_def cnt by (cases "jpeg_target tar") (simp_all add: ac_simps)
  have run: "dependency_entries script (st # rest) r entries
       = (entries @ (e # new), (\<lambda>j. r (j + 8 * jpeg_count (st # rest))))"
    using step new(1) gen by simp
  have len: "length (e # new) = length (st # rest)" using new(2) by simp
  have each: "\<forall>i<length (st # rest).
           (e # new) ! i =
             (if jpeg_target (snd ((st # rest) ! i))
              then transcode_rule (fst ((st # rest) ! i)) (snd ((st # rest) ! i))
                     (snd ((st # rest) ! i) @ ''.''
                        @ drawn_suffix r (8 * jpeg_count (take i (st # rest))) @ ''.png'')
              else copy_rule script (fst ((st # rest) ! i)) (snd ((st # rest) ! i)))"
  proof (intro allI impI)
    fix i assume i: "i < length (st # rest)"
    show "(e # new) ! i =
             (if jpeg_target (snd ((st # rest) ! i))
              then transcode_rule (fst ((st # rest) ! i)) (snd ((st # rest) ! i))
                     (snd ((st # rest) ! i) @ ''.''
                        @ drawn_suffix r (8 * jpeg_count (take i (st # rest))) @ ''.png'')
              else copy_rule script (fst ((st # rest) ! i)) (snd ((st # rest) ! i)))"
    proof (cases i)
      case 0
      then show ?thesis by (simp add: st e_def jpeg_count_def)
    next
      case (Suc k)
      with i have k: "k < length rest" by simp
      have sh: "drawn_suffix r1 (8 * jpeg_count (take k rest))
          = drawn_suffix r (8 * jpeg_count (take (Suc k) (st # rest)))"
        unfolding r1_def drawn_suffix_shift n_def take_Suc_Cons cnt by simp
      from new(3)[rule_format, OF k] show ?thesis
        unfolding Suc sh by simp
    qed
  qed
  from run len each show ?case by blast
qed

text \<open>
  Claim C6. For the resolved dependency at any position, the generator emits one entry, chosen
  by the target's ending without regard to letter case. For \<open>.jpg\<close> or \<open>.jpeg\<close> it is
  the transcode rule: the only dependency is the source, and the actions are, in this order,
  \<open>mkdir -p\<close> of the target's directory, \<open>convert\<close> of the source to a temporary file,
  \<open>guetzli\<close> from the temporary file to the target, and \<open>rm\<close> of the temporary file. The
  temporary file is named by the target, a dot, the eight characters the next eight draws of
  the random generator pick, and \<open>.png\<close>; each transcoded target uses up eight draws. For
  any other target it is the copy rule: the dependencies are the generator script and the
  source, and the actions are \<open>mkdir -p\<close>, then \<open>cp\<close>.
\<close>

theorem asset_entry_dispatch:
  assumes "generate_dependency_makefile script resolved_dependencies r = (entries, r')"
    and "i < length resolved_dependencies"
    and "resolved_dependencies ! i = (src, tar)"
  shows "length entries = length resolved_dependencies
       \<and> r' = (\<lambda>j. r (j + 8 * jpeg_count resolved_dependencies))
       \<and> (jpeg_target tar \<longrightarrow>
            entries ! i =
              transcode_rule src tar
                (tar @ ''.'' @ drawn_suffix r (8 * jpeg_count (take i resolved_dependencies))
                     @ ''.png''))
       \<and> (\<not> jpeg_target tar \<longrightarrow> entries ! i = copy_rule script src tar)"
proof -
  from dependency_entries_spec[of script resolved_dependencies r "[]"]
  obtain new where new:
    "dependency_entries script resolved_dependencies r []
       = ([] @ new, (\<lambda>j. r (j + 8 * jpeg_count resolved_dependencies)))"
    "length new = length resolved_dependencies"
    "\<forall>i<length resolved_dependencies.
           new ! i =
             (if jpeg_target (snd (resolved_dependencies ! i))
              then transcode_rule (fst (resolved_dependencies ! i)) (snd (resolved_dependencies ! i))
                     (snd (resolved_dependencies ! i) @ ''.''
                        @ drawn_suffix r (8 * jpeg_count (take i resolved_dependencies)) @ ''.png'')
              else copy_rule script (fst (resolved_dependencies ! i))
                     (snd (resolved_dependencies ! i)))"
    by blast
  from new(1) assms(1) have eq: "entries = new"
    and gen: "r' = (\<lambda>j. r (j + 8 * jpeg_count resolved_dependencies))"
    unfolding generate_dependency_makefile_def by simp_all
  have fs: "fst (resolved_dependencies ! i) = src" "snd (resolved_dependencies ! i) = tar"
    using assms(3) by simp_all
  from new(3)[rule_format, OF assms(2)] have
    "entries ! i =
       (if jpeg_target tar
        then transcode_rule src tar
               (tar @ ''.'' @ drawn_suffix r (8 * jpeg_count (take i resolved_dependencies))
                    @ ''.png'')
        else copy_rule script src tar)"
    unfolding fs eq .
  then show ?thesis using new(2) eq gen by simp
qed

theorem asset_entry_dispatch_witness:
  "fst (generate_dependency_makefile ''./foswind.py''
      [(''content/img/Photo.JPG'', ''out/img/Photo.JPG''), (''static/it's.css'', ''out/it's.css''),
       (''content/b.jpeg'', ''out/b.jpeg'')]
      (\<lambda>i. i))
    = [(''out/img/Photo.JPG'', ''out/img/Photo.JPG'',
        ''out/img/Photo.JPG: content/img/Photo.JPG''
        @ [CHR 0x0A, CHR 0x09] @ ''mkdir -p out/img''
        @ [CHR 0x0A, CHR 0x09] @ ''convert content/img/Photo.JPG -resize '' @ [CHR 0x27]
            @ ''921600@>'' @ [CHR 0x27] @ '' -strip out/img/Photo.JPG.abcdefgh.png''
        @ [CHR 0x0A, CHR 0x09] @ ''guetzli --quality 84 out/img/Photo.JPG.abcdefgh.png out/img/Photo.JPG''
        @ [CHR 0x0A, CHR 0x09] @ ''rm out/img/Photo.JPG.abcdefgh.png''
        @ [CHR 0x0A]),
       (''out/it's.css'',
        [CHR 0x27] @ ''out/it'' @ [CHR 0x27, CHR 0x22, CHR 0x27, CHR 0x22, CHR 0x27] @ ''s.css'' @ [CHR 0x27],
        [CHR 0x27] @ ''out/it'' @ [CHR 0x27, CHR 0x22, CHR 0x27, CHR 0x22, CHR 0x27] @ ''s.css'' @ [CHR 0x27]
        @ '': ./foswind.py ''
        @ [CHR 0x27] @ ''static/it'' @ [CHR 0x27, CHR 0x22, CHR 0x27, CHR 0x22, CHR 0x27] @ ''s.css'' @ [CHR 0x27]
        @ [CHR 0x0A, CHR 0x09] @ ''mkdir -p out''
        @ [CHR 0x0A, CHR 0x09] @ ''cp ''
        @ [CHR 0x27] @ ''static/it'' @ [CHR 0x27, CHR 0x22, CHR 0x27, CHR 0x22, CHR 0x27] @ ''s.css'' @ [CHR 0x27]
        @ '' ''
        @ [CHR 0x27] @ ''out/it'' @ [CHR 0x27, CHR 0x22, CHR 0x27, CHR 0x22, CHR 0x27] @ ''s.css'' @ [CHR 0x27]
        @ [CHR 0x0A]),
       (''out/b.jpeg'', ''out/b.jpeg'',
        ''out/b.jpeg: content/b.jpeg''
        @ [CHR 0x0A, CHR 0x09] @ ''mkdir -p out''
        @ [CHR 0x0A, CHR 0x09] @ ''convert content/b.jpeg -resize '' @ [CHR 0x27]
            @ ''921600@>'' @ [CHR 0x27] @ '' -strip out/b.jpeg.ijklmnop.png''
        @ [CHR 0x0A, CHR 0x09] @ ''guetzli --quality 84 out/b.jpeg.ijklmnop.png out/b.jpeg''
        @ [CHR 0x0A, CHR 0x09] @ ''rm out/b.jpeg.ijklmnop.png''
        @ [CHR 0x0A])]
   \<and> snd (generate_dependency_makefile ''./foswind.py''
      [(''content/img/Photo.JPG'', ''out/img/Photo.JPG''), (''static/it's.css'', ''out/it's.css''),
       (''content/b.jpeg'', ''out/b.jpeg'')]
      (\<lambda>i. i)) = (\<lambda>j. j + 16)
   \<and> jpeg_target ''out/img/Photo.JPG'' \<and> \<not> jpeg_target ''out/it's.css''
   \<and> fst (generate_dependency_makefile ''./foswind.py''
      [(''content/img/Photo.JPG'', ''out/img/Photo.JPG''), (''static/it's.css'', ''out/it's.css''),
       (''content/b.jpeg'', ''out/b.jpeg'')]
      (\<lambda>i. i)) ! 2
     = transcode_rule ''content/b.jpeg'' ''out/b.jpeg'' ''out/b.jpeg.ijklmnop.png''
   \<and> fst (generate_dependency_makefile ''./foswind.py''
      [(''content/img/Photo.JPG'', ''out/img/Photo.JPG''), (''static/it's.css'', ''out/it's.css''),
       (''content/b.jpeg'', ''out/b.jpeg'')]
      (\<lambda>i. i)) ! 1
     = copy_rule ''./foswind.py'' ''static/it's.css'' ''out/it's.css''"
proof -
  let ?res = "[(''content/img/Photo.JPG'', ''out/img/Photo.JPG''), (''static/it's.css'', ''out/it's.css''),
       (''content/b.jpeg'', ''out/b.jpeg'')]"
  let ?g = "generate_dependency_makefile ''./foswind.py'' ?res (\<lambda>i. i)"
  have j0: "jpeg_target ''out/img/Photo.JPG''" unfolding jpeg_target_def by code_simp
  have j1: "\<not> jpeg_target ''out/it's.css''" unfolding jpeg_target_def by code_simp
  have j2: "jpeg_target ''out/b.jpeg''" unfolding jpeg_target_def by code_simp
  have ev: "fst ?g
    = [(''out/img/Photo.JPG'', ''out/img/Photo.JPG'',
        ''out/img/Photo.JPG: content/img/Photo.JPG''
        @ [CHR 0x0A, CHR 0x09] @ ''mkdir -p out/img''
        @ [CHR 0x0A, CHR 0x09] @ ''convert content/img/Photo.JPG -resize '' @ [CHR 0x27]
            @ ''921600@>'' @ [CHR 0x27] @ '' -strip out/img/Photo.JPG.abcdefgh.png''
        @ [CHR 0x0A, CHR 0x09] @ ''guetzli --quality 84 out/img/Photo.JPG.abcdefgh.png out/img/Photo.JPG''
        @ [CHR 0x0A, CHR 0x09] @ ''rm out/img/Photo.JPG.abcdefgh.png''
        @ [CHR 0x0A]),
       (''out/it's.css'',
        [CHR 0x27] @ ''out/it'' @ [CHR 0x27, CHR 0x22, CHR 0x27, CHR 0x22, CHR 0x27] @ ''s.css'' @ [CHR 0x27],
        [CHR 0x27] @ ''out/it'' @ [CHR 0x27, CHR 0x22, CHR 0x27, CHR 0x22, CHR 0x27] @ ''s.css'' @ [CHR 0x27]
        @ '': ./foswind.py ''
        @ [CHR 0x27] @ ''static/it'' @ [CHR 0x27, CHR 0x22, CHR 0x27, CHR 0x22, CHR 0x27] @ ''s.css'' @ [CHR 0x27]
        @ [CHR 0x0A, CHR 0x09] @ ''mkdir -p out''
        @ [CHR 0x0A, CHR 0x09] @ ''cp ''
        @ [CHR 0x27] @ ''static/it'' @ [CHR 0x27, CHR 0x22, CHR 0x27, CHR 0x22, CHR 0x27] @ ''s.css'' @ [CHR 0x27]
        @ '' ''
        @ [CHR 0x27] @ ''out/it'' @ [CHR 0x27, CHR 0x22, CHR 0x27, CHR 0x22, CHR 0x27] @ ''s.css'' @ [CHR 0x27]
        @ [CHR 0x0A]),
       (''out/b.jpeg'', ''out/b.jpeg'',
        ''out/b.jpeg: content/b.jpeg''
        @ [CHR 0x0A, CHR 0x09] @ ''mkdir -p out''
        @ [CHR 0x0A, CHR 0x09] @ ''convert content/b.jpeg -resize '' @ [CHR 0x27]
            @ ''921600@>'' @ [CHR 0x27] @ '' -strip out/b.jpeg.ijklmnop.png''
        @ [CHR 0x0A, CHR 0x09] @ ''guetzli --quality 84 out/b.jpeg.ijklmnop.png out/b.jpeg''
        @ [CHR 0x0A, CHR 0x09] @ ''rm out/b.jpeg.ijklmnop.png''
        @ [CHR 0x0A])]"
    by code_simp
  have pair: "?g = (fst ?g, snd ?g)" by simp
  have i2: "2 < length ?res" by simp
  have n2: "?res ! 2 = (''content/b.jpeg'', ''out/b.jpeg'')" by simp
  have c2: "jpeg_count (take 2 ?res) = 1" unfolding jpeg_count_def by code_simp
  have c3: "jpeg_count ?res = 2" unfolding jpeg_count_def by code_simp
  have sfx: "drawn_suffix (\<lambda>i. i) 8 = ''ijklmnop''" by code_simp
  from asset_entry_dispatch[OF pair i2 n2] j2
  have gen: "snd ?g = (\<lambda>j. j + 8 * jpeg_count ?res)"
    and e2: "fst ?g ! 2 = transcode_rule ''content/b.jpeg'' ''out/b.jpeg''
               (''out/b.jpeg'' @ ''.'' @ drawn_suffix (\<lambda>i. i) (8 * jpeg_count (take 2 ?res)) @ ''.png'')"
    by blast+
  have gen': "snd ?g = (\<lambda>j. j + 16)" unfolding gen c3 by simp
  have e2': "fst ?g ! 2 = transcode_rule ''content/b.jpeg'' ''out/b.jpeg'' ''out/b.jpeg.ijklmnop.png''"
    unfolding e2 c2 using sfx by simp
  have i1: "1 < length ?res" by simp
  have n1: "?res ! 1 = (''static/it's.css'', ''out/it's.css'')" by simp
  from asset_entry_dispatch[OF pair i1 n1] j1
  have e1: "fst ?g ! 1 = copy_rule ''./foswind.py'' ''static/it's.css'' ''out/it's.css''"
    by blast
  show ?thesis
    by (intro conjI) (rule ev, rule gen', rule j0, rule j1, rule e2', rule e1)
qed

section \<open>Properties of the file system\<close>

lemma lookup_node_append:
  "lookup_node n (p @ q) = (case lookup_node n p of None \<Rightarrow> None | Some m \<Rightarrow> lookup_node m q)"
proof (induction p arbitrary: n)
  case Nil
  show ?case by simp
next
  case (Cons x p)
  show ?case by (cases n) (auto simp: Cons.IH split: option.splits)
qed

lemma resolve_snoc: "resolve fs (p @ [x]) = resolve_step fs x (resolve fs p)"
  by (simp add: resolve_def)

lemma follow_sound:
  assumes "follow fs (cp, n) = Some (cp', n')" and "lookup_node fs cp = Some n"
  shows "lookup_node fs cp' = Some n' \<and> (\<forall>t. n' \<noteq> Symlink t)"
  using assms by (auto simp: follow_def split: node.splits option.splits)

lemma resolve_sound:
  "resolve fs p = Some (cp, n) \<Longrightarrow> lookup_node fs cp = Some n \<and> (\<forall>t. n \<noteq> Symlink t)"
proof (induction p arbitrary: cp n rule: rev_induct)
  case Nil
  then have "follow fs ([], fs) = Some (cp, n)" by (simp add: resolve_def)
  from follow_sound[OF this] show ?case by simp
next
  case (snoc x p)
  from snoc.prems have step: "resolve_step fs x (resolve fs p) = Some (cp, n)"
    by (simp add: resolve_snoc)
  then obtain cp0 es m where r: "resolve fs p = Some (cp0, Dir es)" and m: "map_of es x = Some m"
    and f: "follow fs (cp0 @ [x], m) = Some (cp, n)"
    by (auto simp: resolve_step_def split: option.splits prod.splits node.splits)
  from snoc.IH[OF r] have "lookup_node fs cp0 = Some (Dir es)" by simp
  then have "lookup_node fs (cp0 @ [x]) = Some m"
    using m by (simp add: lookup_node_append)
  from follow_sound[OF f this] show ?case .
qed

text \<open>The canonical paths of the directories of a file system are finitely many.\<close>

lemma finite_node_paths: "finite {p. lookup_node n p \<noteq> None}"
proof (induction n)
  case File
  have "{p. lookup_node File p \<noteq> None} \<subseteq> {[]}"
  proof
    fix p assume "p \<in> {p. lookup_node File p \<noteq> None}"
    then show "p \<in> {[]}" by (cases p) auto
  qed
  then show ?case by (rule finite_subset) simp
next
  case (Symlink t)
  have "{p. lookup_node (Symlink t) p \<noteq> None} \<subseteq> {[]}"
  proof
    fix p assume "p \<in> {p. lookup_node (Symlink t) p \<noteq> None}"
    then show "p \<in> {[]}" by (cases p) auto
  qed
  then show ?case by (rule finite_subset) simp
next
  case (Dir es)
  have sub: "{p. lookup_node (Dir es) p \<noteq> None}
      \<subseteq> insert [] (\<Union>e\<in>set es. (#) (fst e) ` {p. lookup_node (snd e) p \<noteq> None})"
  proof
    fix p assume p: "p \<in> {p. lookup_node (Dir es) p \<noteq> None}"
    show "p \<in> insert [] (\<Union>e\<in>set es. (#) (fst e) ` {p. lookup_node (snd e) p \<noteq> None})"
    proof (cases p)
      case Nil
      then show ?thesis by simp
    next
      case (Cons x q)
      with p obtain m where m: "map_of es x = Some m" and q: "lookup_node m q \<noteq> None"
        by (auto split: option.splits)
      from m have "(x, m) \<in> set es" by (rule map_of_SomeD)
      with q Cons show ?thesis by force
    qed
  qed
  have "finite (\<Union>e\<in>set es. (#) (fst e) ` {p. lookup_node (snd e) p \<noteq> None})"
  proof (rule finite_UN_I)
    show "finite (set es)" by simp
  next
    fix e assume e: "e \<in> set es"
    have "snd e \<in> Basic_BNFs.snds e" by (cases e) simp
    with Dir e have "finite {p. lookup_node (snd e) p \<noteq> None}" by blast
    then show "finite ((#) (fst e) ` {p. lookup_node (snd e) p \<noteq> None})" by simp
  qed
  then show ?case using sub by (meson finite_insert finite_subset)
qed

lemma finite_canonical_dirs: "finite (canonical_dirs fs)"
proof -
  have "canonical_dirs fs \<subseteq> {p. lookup_node fs p \<noteq> None}"
    by (auto simp: canonical_dirs_def)
  then show ?thesis using finite_node_paths by (rule finite_subset)
qed

lemma listdir_realpath_canonical:
  "os_listdir fs p = Inr names \<Longrightarrow> os_path_realpath fs p \<in> canonical_dirs fs"
  by (auto simp: os_listdir_def os_path_realpath_def canonical_dirs_def
      split: option.splits prod.splits node.splits dest: resolve_sound)

section \<open>The loop of the enumerator\<close>

lemma isfile_not_isdir: "os_path_isfile fs f \<Longrightarrow> \<not> os_path_isdir fs f"
  by (auto simp: os_path_isfile_def os_path_isdir_def split: option.splits node.splits)

lemma scan_dir_eq:
  "scan_dir fs path flt inc cur names st =
     st\<lparr>path_stack := path_stack st @ map (\<lambda>x. cur @ [x]) (filter (\<lambda>x. os_path_isdir fs (cur @ [x])) names),
        result := result st
           @ map (\<lambda>x. os_path_relpath (cur @ [x]) path) (filter (\<lambda>x. qualifies fs flt inc (cur @ [x])) names)\<rparr>"
proof (induction names arbitrary: st)
  case Nil
  show ?case by simp
next
  case (Cons x names)
  show ?case
    using isfile_not_isdir[of fs "cur @ [x]"]
    by (simp add: Cons.IH Let_def qualifies_def)
qed

lemma fa_body_skip:
  assumes "os_path_realpath fs (last (path_stack st)) \<in> visited_paths st"
  shows "fa_body fs path flt inc st = Inr (st\<lparr>path_stack := butlast (path_stack st)\<rparr>)"
  using assms by (simp add: fa_body_def Let_def)

lemma fa_body_list:
  assumes "os_path_realpath fs (last (path_stack st)) \<notin> visited_paths st"
    and "os_listdir fs (last (path_stack st)) = Inr names"
  shows "fa_body fs path flt inc st =
     Inr \<lparr>path_stack = butlast (path_stack st)
             @ map (\<lambda>x. last (path_stack st) @ [x])
                 (filter (\<lambda>x. os_path_isdir fs (last (path_stack st) @ [x])) names),
          visited_paths = insert (os_path_realpath fs (last (path_stack st))) (visited_paths st),
          result = result st
             @ map (\<lambda>x. os_path_relpath (last (path_stack st) @ [x]) path)
                 (filter (\<lambda>x. qualifies fs flt inc (last (path_stack st) @ [x])) names),
          listed = listed st @ [last (path_stack st)]\<rparr>"
  using assms by (simp add: fa_body_def Let_def scan_dir_eq)

lemma fa_body_error:
  assumes "os_path_realpath fs (last (path_stack st)) \<notin> visited_paths st"
    and "os_listdir fs (last (path_stack st)) = Inl e"
  shows "fa_body fs path flt inc st = Inl e"
  using assms by (simp add: fa_body_def Let_def)

lemma wf_fa_measure: "wf (fa_measure fs)"
  unfolding fa_measure_def by (intro wf_inv_image wf_lex_prod wf_less_than)

lemma fa_body_decreases:
  assumes ne: "path_stack st \<noteq> []" and body: "fa_body fs path flt inc st = Inr st'"
  shows "(st', st) \<in> fa_measure fs"
proof (cases "os_path_realpath fs (last (path_stack st)) \<in> visited_paths st")
  case True
  from body[unfolded fa_body_skip[OF True]] have "st' = st\<lparr>path_stack := butlast (path_stack st)\<rparr>"
    by simp
  with ne show ?thesis by (simp add: fa_measure_def)
next
  case False
  show ?thesis
  proof (cases "os_listdir fs (last (path_stack st))")
    case (Inl e)
    from body[unfolded fa_body_error[OF False Inl]] show ?thesis by simp
  next
    case (Inr names)
    let ?rp = "os_path_realpath fs (last (path_stack st))"
    from body[unfolded fa_body_list[OF False Inr]]
    have v: "visited_paths st' = insert ?rp (visited_paths st)" by auto
    have in_d: "?rp \<in> canonical_dirs fs" using Inr by (rule listdir_realpath_canonical)
    have "canonical_dirs fs - visited_paths st' \<subset> canonical_dirs fs - visited_paths st"
      using in_d False v by auto
    then have "card (canonical_dirs fs - visited_paths st') < card (canonical_dirs fs - visited_paths st)"
      using finite_canonical_dirs[of fs] by (intro psubset_card_mono) auto
    then show ?thesis by (simp add: fa_measure_def)
  qed
qed

lemma fa_while_total: "\<exists>r. fa_while fs path flt inc st = Some r"
proof (induction st rule: wf_induct_rule[OF wf_fa_measure[of fs]])
  case (1 st)
  show ?case
  proof (cases "path_stack st = []")
    case True
    then show ?thesis by (simp add: fa_while.simps)
  next
    case False
    show ?thesis
    proof (cases "fa_body fs path flt inc st")
      case (Inl e)
      with False show ?thesis by (simp add: fa_while.simps)
    next
      case (Inr st')
      from fa_body_decreases[OF False Inr] have "\<exists>r. fa_while fs path flt inc st' = Some r"
        by (rule 1)
      with False Inr show ?thesis by (subst fa_while.simps) simp
    qed
  qed
qed

text \<open>Invariants of the loop carry over to the state it ends in.\<close>

lemma fa_while_invariant:
  assumes step: "\<And>s s'. I s \<Longrightarrow> path_stack s \<noteq> [] \<Longrightarrow> fa_body fs path flt inc s = Inr s' \<Longrightarrow> I s'"
  shows "I st \<Longrightarrow> fa_while fs path flt inc st = Some (Inr st') \<Longrightarrow> I st' \<and> path_stack st' = []"
proof (induction st rule: wf_induct_rule[OF wf_fa_measure[of fs]])
  case (1 st)
  show ?case
  proof (cases "path_stack st = []")
    case True
    with 1(2,3) show ?thesis by (simp add: fa_while.simps)
  next
    case False
    show ?thesis
    proof (cases "fa_body fs path flt inc st")
      case (Inl e)
      with False 1(3) show ?thesis by (simp add: fa_while.simps)
    next
      case (Inr s1)
      from 1(3) False Inr have w: "fa_while fs path flt inc s1 = Some (Inr st')"
        by (subst (asm) fa_while.simps) simp
      from step[OF 1(2) False Inr] have "I s1" .
      from 1(1)[OF fa_body_decreases[OF False Inr] this w] show ?thesis .
    qed
  qed
qed

text \<open>An invariant under which no round fails makes the loop end in a state.\<close>

lemma fa_while_succeeds:
  assumes step: "\<And>s. I s \<Longrightarrow> path_stack s \<noteq> [] \<Longrightarrow> \<exists>s'. fa_body fs path flt inc s = Inr s' \<and> I s'"
  shows "I st \<Longrightarrow> \<exists>st'. fa_while fs path flt inc st = Some (Inr st') \<and> I st' \<and> path_stack st' = []"
proof (induction st rule: wf_induct_rule[OF wf_fa_measure[of fs]])
  case (1 st)
  show ?case
  proof (cases "path_stack st = []")
    case True
    with 1(2) show ?thesis by (simp add: fa_while.simps)
  next
    case False
    from step[OF 1(2) False] obtain s1 where s1: "fa_body fs path flt inc st = Inr s1" "I s1"
      by blast
    from 1(1)[OF fa_body_decreases[OF False s1(1)] s1(2)]
    obtain st' where "fa_while fs path flt inc s1 = Some (Inr st')" "I st'" "path_stack st' = []"
      by blast
    with False s1(1) show ?thesis by (subst fa_while.simps) simp
  qed
qed

lemma lcp_append: "longest_common_prefix xs (xs @ ys) = xs"
  by (induction xs) auto

lemma relpath_under:
  assumes "r \<noteq> []"
  shows "os_path_relpath (path @ r) path = r"
  using assms by (simp add: os_path_relpath_def lcp_append Let_def)

lemma relpath_child:
  assumes "prefix path cur"
  shows "os_path_relpath (cur @ [x]) path = drop (length path) cur @ [x]"
proof -
  from assms obtain r where r: "cur = path @ r" by (auto simp: prefix_def)
  have "os_path_relpath (path @ (r @ [x])) path = r @ [x]" by (rule relpath_under) simp
  then show ?thesis by (simp add: r)
qed

lemma isdir_listdir: "os_path_isdir fs p \<Longrightarrow> \<exists>names. os_listdir fs p = Inr names \<and> distinct names"
  by (auto simp: os_path_isdir_def os_listdir_def split: option.splits node.splits)

lemma fa_inv_init: "os_path_isdir fs path \<Longrightarrow> fa_inv fs path flt inc (fa_init path)"
  by (simp add: fa_inv_def fa_init_def)

text \<open>The listed paths are closed under ancestors, down to the starting path.\<close>

lemma listed_ancestors:
  assumes inv: "\<forall>q\<in>set L. prefix path q \<and> (q \<noteq> path \<longrightarrow> butlast q \<in> set L)"
    and c: "c \<in> set L" and q: "prefix path q" "prefix q c"
  shows "q \<in> set L"
  using c q(2)
proof (induction "length c - length q" arbitrary: c)
  case 0
  then have "length c \<le> length q" by simp
  with \<open>prefix q c\<close> have "q = c"
    by (metis prefix_length_le le_antisym prefix_length_prefix prefix_order.antisym prefix_order.refl)
  with 0 show ?case by simp
next
  case (Suc n)
  from Suc.hyps(2) have lt: "length q < length c" by simp
  with \<open>prefix q c\<close> have sp: "strict_prefix q c" by (auto simp: strict_prefix_def)
  then have "c \<noteq> []" by auto
  have "c \<noteq> path"
    using q(1) lt by (auto dest: prefix_length_le)
  with inv Suc.prems(1) have b: "butlast c \<in> set L" by blast
  have "prefix q (butlast c)"
    using sp \<open>c \<noteq> []\<close> by (metis append_butlast_last_id prefix_snoc strict_prefix_def)
  moreover have "n = length (butlast c) - length q" using Suc.hyps(2) by simp
  ultimately show ?case using Suc.hyps(1) b by blast
qed

lemma sorted_wrt_all: "(\<And>x y. x \<in> set xs \<Longrightarrow> y \<in> set xs \<Longrightarrow> P x y) \<Longrightarrow> sorted_wrt P xs"
  by (induction xs) auto

lemma strict_prefix_butlast: "strict_prefix a x \<Longrightarrow> prefix a (butlast x)"
  by (metis append_butlast_last_id prefix_snoc strict_prefix_def prefix_bot.extremum_uniqueI)

lemma fa_inv_step:
  assumes inv: "fa_inv fs path flt inc s" and ne: "path_stack s \<noteq> []"
  shows "\<exists>s'. fa_body fs path flt inc s = Inr s' \<and> fa_inv fs path flt inc s'"
proof -
  define cur where "cur = last (path_stack s)"
  define rest where "rest = butlast (path_stack s)"
  define L where "L = listed s"
  have stack: "path_stack s = rest @ [cur]" using ne by (simp add: cur_def rest_def)
  from inv have v: "visited_paths s = os_path_realpath fs ` set L"
    and dl: "distinct (map (os_path_realpath fs) L)"
    and sl: "\<And>q. q \<in> set (path_stack s) \<union> set L \<Longrightarrow>
              os_path_isdir fs q \<and> prefix path q \<and> (q \<noteq> path \<longrightarrow> butlast q \<in> set L)"
    and ds: "distinct (path_stack s)"
    and disj: "set (path_stack s) \<inter> set L = {}"
    and res: "\<And>e. e \<in> set (result s) \<Longrightarrow>
              e \<noteq> [] \<and> path @ butlast e \<in> set L \<and> qualifies fs flt inc (path @ e)"
    and dr: "distinct (result s)"
    and sr: "sorted_wrt (\<lambda>x y. \<not> strict_prefix y x) (result s)"
    unfolding fa_inv_def L_def by blast+
  have cur_in: "cur \<in> set (path_stack s)" by (simp add: stack)
  have cur_dir: "os_path_isdir fs cur" and cur_pre: "prefix path cur"
    and cur_par: "cur \<noteq> path \<Longrightarrow> butlast cur \<in> set L"
    using sl[of cur] cur_in by auto
  have cur_nl: "cur \<notin> set L" using disj cur_in by blast
  have cur_nr: "cur \<notin> set rest" and d_rest: "distinct rest" using ds by (auto simp: stack)
  have rest_sub: "set rest \<subseteq> set (path_stack s)" by (auto simp: stack)
  show ?thesis
  proof (cases "os_path_realpath fs cur \<in> visited_paths s")
    case True
    have body: "fa_body fs path flt inc s = Inr (s\<lparr>path_stack := rest\<rparr>)"
      using True unfolding cur_def rest_def by (rule fa_body_skip)
    have "fa_inv fs path flt inc (s\<lparr>path_stack := rest\<rparr>)"
      unfolding fa_inv_def
    proof (intro conjI)
      show "\<forall>q\<in>set (path_stack (s\<lparr>path_stack := rest\<rparr>)) \<union> set (listed (s\<lparr>path_stack := rest\<rparr>)).
              os_path_isdir fs q \<and> prefix path q
              \<and> (q \<noteq> path \<longrightarrow> butlast q \<in> set (listed (s\<lparr>path_stack := rest\<rparr>)))"
        using sl rest_sub by (auto simp: L_def)
      show "set (path_stack (s\<lparr>path_stack := rest\<rparr>)) \<inter> set (listed (s\<lparr>path_stack := rest\<rparr>)) = {}"
        using disj rest_sub by (auto simp: L_def)
    qed (use v dl d_rest res dr sr in \<open>auto simp: L_def\<close>)
    with body show ?thesis by blast
  next
    case False
    from isdir_listdir[OF cur_dir] obtain names where names: "os_listdir fs cur = Inr names"
      and dn: "distinct names" by blast
    define r where "r = drop (length path) cur"
    have cur_r: "path @ r = cur" using cur_pre by (auto simp: r_def prefix_def)
    define subdirs where
      "subdirs = map (\<lambda>x. cur @ [x]) (filter (\<lambda>x. os_path_isdir fs (cur @ [x])) names)"
    define new where
      "new = map (\<lambda>x. r @ [x]) (filter (\<lambda>x. qualifies fs flt inc (cur @ [x])) names)"
    define s' where "s' = \<lparr>path_stack = rest @ subdirs,
          visited_paths = insert (os_path_realpath fs cur) (visited_paths s),
          result = result s @ new, listed = L @ [cur]\<rparr>"
    have body: "fa_body fs path flt inc s = Inr s'"
      using fa_body_list[of fs s names path flt inc] False names
      unfolding cur_def[symmetric] rest_def[symmetric] s'_def subdirs_def new_def L_def r_def
      by (simp add: relpath_child[OF cur_pre])
    have child_new: "cur @ [x] \<notin> set L" and child_ne: "cur @ [x] \<noteq> path" for x
    proof -
      show ne: "cur @ [x] \<noteq> path"
        using cur_pre by (auto dest: prefix_length_le)
      show "cur @ [x] \<notin> set L"
      proof
        assume "cur @ [x] \<in> set L"
        with sl[of "cur @ [x]"] ne have "butlast (cur @ [x]) \<in> set L" by blast
        with cur_nl show False by simp
      qed
    qed
    have child_nr: "cur @ [x] \<notin> set rest" for x
    proof
      assume "cur @ [x] \<in> set rest"
      with rest_sub sl[of "cur @ [x]"] child_ne[of x] have "butlast (cur @ [x]) \<in> set L" by blast
      with cur_nl show False by simp
    qed
    have sub_form: "\<And>q. q \<in> set subdirs \<Longrightarrow> \<exists>x. q = cur @ [x] \<and> os_path_isdir fs q"
      by (auto simp: subdirs_def)
    have new_form: "\<And>e. e \<in> set new \<Longrightarrow> \<exists>x. e = r @ [x] \<and> qualifies fs flt inc (cur @ [x])"
      by (auto simp: new_def)
    have c1: "visited_paths s' = os_path_realpath fs ` set (listed s')"
      by (simp add: s'_def v)
    have c2: "distinct (map (os_path_realpath fs) (listed s'))"
      using dl False by (simp add: s'_def v)
    have c3: "\<forall>q\<in>set (path_stack s') \<union> set (listed s').
            os_path_isdir fs q \<and> prefix path q \<and> (q \<noteq> path \<longrightarrow> butlast q \<in> set (listed s'))"
    proof
      fix q assume "q \<in> set (path_stack s') \<union> set (listed s')"
      then consider "q \<in> set rest \<union> set L" | "q \<in> set subdirs" | "q = cur"
        by (auto simp: s'_def)
      then show "os_path_isdir fs q \<and> prefix path q \<and> (q \<noteq> path \<longrightarrow> butlast q \<in> set (listed s'))"
      proof cases
        case 1
        then have "q \<in> set (path_stack s) \<union> set L" using rest_sub by blast
        from sl[OF this] show ?thesis by (auto simp: s'_def)
      next
        case 2
        from sub_form[OF this] obtain x where "q = cur @ [x]" "os_path_isdir fs q" by blast
        then show ?thesis using cur_pre by (auto simp: s'_def)
      next
        case 3
        then show ?thesis using cur_dir cur_pre cur_par by (auto simp: s'_def)
      qed
    qed
    have d_sub: "distinct subdirs"
      unfolding subdirs_def using dn by (simp add: distinct_map inj_on_def)
    have c4: "distinct (path_stack s')"
      using d_rest d_sub sub_form child_nr by (auto simp: s'_def)
    have c5: "set (path_stack s') \<inter> set (listed s') = {}"
    proof -
      have "set rest \<inter> set L = {}" using disj rest_sub by blast
      moreover have "set subdirs \<inter> set L = {}" using sub_form child_new by blast
      moreover have "cur \<notin> set subdirs" using sub_form by auto
      ultimately show ?thesis using cur_nr by (auto simp: s'_def)
    qed
    have c6: "\<forall>e\<in>set (result s').
            e \<noteq> [] \<and> path @ butlast e \<in> set (listed s') \<and> qualifies fs flt inc (path @ e)"
    proof
      fix e assume "e \<in> set (result s')"
      then consider "e \<in> set (result s)" | "e \<in> set new" by (auto simp: s'_def)
      then show "e \<noteq> [] \<and> path @ butlast e \<in> set (listed s') \<and> qualifies fs flt inc (path @ e)"
      proof cases
        case 1
        from res[OF this] show ?thesis by (auto simp: s'_def)
      next
        case 2
        from new_form[OF this] obtain x where x: "e = r @ [x]" "qualifies fs flt inc (cur @ [x])"
          by blast
        have "path @ e = cur @ [x]" using cur_r x(1) by (metis append_assoc)
        moreover have "path @ butlast e = cur" using cur_r x(1) by simp
        moreover have "e \<noteq> []" using x(1) by simp
        ultimately show ?thesis using x(2) by (simp add: s'_def)
      qed
    qed
    have d_new: "distinct new"
      unfolding new_def using dn by (simp add: distinct_map inj_on_def)
    have new_old: "e \<notin> set (result s)" if "e \<in> set new" for e
    proof
      assume old: "e \<in> set (result s)"
      from new_form[OF that] obtain x where "e = r @ [x]" by blast
      then have "path @ butlast e = cur" using cur_r by simp
      with res[OF old] cur_nl show False by simp
    qed
    have c7: "distinct (result s')"
      using dr d_new new_old by (auto simp: s'_def)
    have c8: "sorted_wrt (\<lambda>x y. \<not> strict_prefix y x) (result s')"
    proof -
      have "sorted_wrt (\<lambda>x y. \<not> strict_prefix y x) new"
      proof (rule sorted_wrt_all)
        fix x y assume "x \<in> set new" "y \<in> set new"
        then have "length x = length y" by (auto dest!: new_form)
        then show "\<not> strict_prefix y x"
          by (auto dest: prefix_length_less)
      qed
      moreover have "\<not> strict_prefix y x" if x: "x \<in> set (result s)" and y: "y \<in> set new" for x y
      proof
        assume sp: "strict_prefix y x"
        from new_form[OF y] obtain z where z: "y = r @ [z]" by blast
        from sp have "prefix y (butlast x)" by (rule strict_prefix_butlast)
        then have "prefix (path @ y) (path @ butlast x)" by simp
        then have pre: "prefix (cur @ [z]) (path @ butlast x)" using z cur_r by (metis append_assoc)
        have inL: "path @ butlast x \<in> set L" using res[OF x] by blast
        have "\<forall>q\<in>set L. prefix path q \<and> (q \<noteq> path \<longrightarrow> butlast q \<in> set L)" using sl by blast
        from listed_ancestors[OF this inL _ pre] cur_pre have "cur @ [z] \<in> set L" by simp
        with child_new show False by blast
      qed
      ultimately show ?thesis using sr by (auto simp: s'_def sorted_wrt_append)
    qed
    from c1 c2 c3 c4 c5 c6 c7 c8 have "fa_inv fs path flt inc s'"
      unfolding fa_inv_def by blast
    with body show ?thesis by blast
  qed
qed

text \<open>Started on a directory, the loop ends in a state that satisfies the invariant.\<close>

lemma fa_while_inv:
  assumes "os_path_isdir fs path"
  shows "\<exists>st. fa_while fs path flt inc (fa_init path) = Some (Inr st)
            \<and> fa_inv fs path flt inc st \<and> path_stack st = []"
  using fa_while_succeeds[where I = "fa_inv fs path flt inc", OF fa_inv_step fa_inv_init[OF assms]]
  by blast

lemma fa_while_not_dir:
  assumes "\<not> os_path_isdir fs path"
  shows "fa_while fs path flt inc (fa_init path) = Some (Inl (OSError path))"
proof -
  have "os_listdir fs path = Inl (OSError path)"
    using assms by (auto simp: os_listdir_def os_path_isdir_def split: option.splits node.splits)
  then have "fa_body fs path flt inc (fa_init path) = Inl (OSError path)"
    by (simp add: fa_body_def fa_init_def Let_def)
  then show ?thesis by (subst fa_while.simps) (simp add: fa_init_def)
qed

lemma resolve_snoc_Some:
  assumes "resolve fs (p @ [x]) = Some r"
  shows "\<exists>cp es. resolve fs p = Some (cp, Dir es) \<and> x \<in> fst ` set es"
proof -
  from assms have "resolve_step fs x (resolve fs p) = Some r" by (simp add: resolve_snoc)
  then obtain cp es m where "resolve fs p = Some (cp, Dir es)" "map_of es x = Some m"
    by (auto simp: resolve_step_def split: option.splits prod.splits node.splits)
  moreover from this(2) have "x \<in> fst ` set es" by (metis map_of_eq_None_iff option.distinct(1))
  ultimately show ?thesis by blast
qed

lemma exists_child:
  assumes "os_path_isdir fs (p @ [x]) \<or> os_path_isfile fs (p @ [x])"
  shows "os_path_isdir fs p \<and> (\<forall>names. os_listdir fs p = Inr names \<longrightarrow> x \<in> set names)"
proof -
  from assms obtain r where "resolve fs (p @ [x]) = Some r"
    by (auto simp: os_path_isdir_def os_path_isfile_def split: option.splits)
  from resolve_snoc_Some[OF this] obtain cp es where
    "resolve fs p = Some (cp, Dir es)" "x \<in> fst ` set es" by blast
  then show ?thesis by (auto simp: os_path_isdir_def os_listdir_def)
qed

lemma qualifies_child:
  assumes "qualifies fs flt inc (p @ [x])"
  shows "os_path_isdir fs p \<and> (\<forall>names. os_listdir fs p = Inr names \<longrightarrow> x \<in> set names)"
  using assms exists_child[of fs p x] unfolding qualifies_def by blast

lemma fa_complete_init: "fa_complete fs path flt inc (fa_init path)"
  by (simp add: fa_complete_def fa_init_def)

lemma fa_complete_step:
  assumes af: "alias_free fs path"
    and inv: "fa_inv fs path flt inc s" and comp: "fa_complete fs path flt inc s"
    and ne: "path_stack s \<noteq> []"
  shows "\<exists>s'. fa_body fs path flt inc s = Inr s' \<and> fa_inv fs path flt inc s'
            \<and> fa_complete fs path flt inc s'"
proof -
  define cur where "cur = last (path_stack s)"
  define rest where "rest = butlast (path_stack s)"
  define L where "L = listed s"
  have stack: "path_stack s = rest @ [cur]" using ne by (simp add: cur_def rest_def)
  from inv have v: "visited_paths s = os_path_realpath fs ` set L"
    and sl: "\<And>q. q \<in> set (path_stack s) \<union> set L \<Longrightarrow> os_path_isdir fs q \<and> prefix path q"
    and disj: "set (path_stack s) \<inter> set L = {}"
    unfolding fa_inv_def L_def by blast+
  have cur_in: "cur \<in> set (path_stack s)" by (simp add: stack)
  have cur_dir: "os_path_isdir fs cur" and cur_pre: "prefix path cur"
    using sl[of cur] cur_in by auto
  have cur_nl: "cur \<notin> set L" using disj cur_in by blast
  have fresh: "os_path_realpath fs cur \<notin> visited_paths s"
  proof
    assume "os_path_realpath fs cur \<in> visited_paths s"
    then obtain c where c: "c \<in> set L" "os_path_realpath fs c = os_path_realpath fs cur"
      unfolding v by auto
    from sl[of c] c(1) have "c \<in> {q. prefix path q \<and> os_path_isdir fs q}" by simp
    moreover have "cur \<in> {q. prefix path q \<and> os_path_isdir fs q}" using cur_dir cur_pre by simp
    ultimately have "c = cur" using af c(2) unfolding alias_free_def inj_on_def by blast
    with c(1) cur_nl show False by simp
  qed
  from isdir_listdir[OF cur_dir] obtain names where names: "os_listdir fs cur = Inr names"
    by blast
  define s' where "s' = \<lparr>path_stack = rest
             @ map (\<lambda>x. cur @ [x]) (filter (\<lambda>x. os_path_isdir fs (cur @ [x])) names),
          visited_paths = insert (os_path_realpath fs cur) (visited_paths s),
          result = result s
             @ map (\<lambda>x. os_path_relpath (cur @ [x]) path)
                 (filter (\<lambda>x. qualifies fs flt inc (cur @ [x])) names),
          listed = L @ [cur]\<rparr>"
  have body: "fa_body fs path flt inc s = Inr s'"
    using fa_body_list[of fs s names path flt inc] fresh names
    unfolding cur_def[symmetric] rest_def[symmetric] s'_def L_def by simp
  from fa_inv_step[OF inv ne] body have inv': "fa_inv fs path flt inc s'" by simp
  from comp have root: "path \<in> set L \<union> set (path_stack s)"
    and kids: "\<And>c x. c \<in> set L \<Longrightarrow> os_path_isdir fs (c @ [x]) \<Longrightarrow> c @ [x] \<in> set L \<union> set (path_stack s)"
    and quals: "\<And>c x. c \<in> set L \<Longrightarrow> qualifies fs flt inc (c @ [x])
                  \<Longrightarrow> drop (length path) (c @ [x]) \<in> set (result s)"
    unfolding fa_complete_def L_def by blast+
  have old_new: "q \<in> set (listed s') \<union> set (path_stack s')" if "q \<in> set L \<union> set (path_stack s)" for q
    using that by (auto simp: s'_def stack)
  have "fa_complete fs path flt inc s'"
    unfolding fa_complete_def
  proof (intro conjI ballI allI impI)
    show "path \<in> set (listed s') \<union> set (path_stack s')" using root by (rule old_new)
  next
    fix c x assume c: "c \<in> set (listed s')" and d: "os_path_isdir fs (c @ [x])"
    show "c @ [x] \<in> set (listed s') \<union> set (path_stack s')"
    proof (cases "c = cur")
      case True
      from exists_child[of fs cur x] d True names have "x \<in> set names" by blast
      with d True show ?thesis by (simp add: s'_def)
    next
      case False
      with c have "c \<in> set L" by (simp add: s'_def)
      from kids[OF this d] show ?thesis by (rule old_new)
    qed
  next
    fix c x assume c: "c \<in> set (listed s')" and q: "qualifies fs flt inc (c @ [x])"
    show "drop (length path) (c @ [x]) \<in> set (result s')"
    proof (cases "c = cur")
      case True
      from qualifies_child[OF q] True names have "x \<in> set names" by blast
      with q True have "os_path_relpath (cur @ [x]) path \<in> set (result s')"
        by (simp add: s'_def)
      then show ?thesis using True relpath_child[OF cur_pre, of x] prefix_length_le[OF cur_pre]
        by simp
    next
      case False
      with c have "c \<in> set L" by (simp add: s'_def)
      from quals[OF this q] show ?thesis by (simp add: s'_def)
    qed
  qed
  with body inv' show ?thesis by blast
qed

lemma fa_while_complete:
  assumes dir: "os_path_isdir fs path" and af: "alias_free fs path"
  shows "\<exists>st. fa_while fs path flt inc (fa_init path) = Some (Inr st)
            \<and> fa_inv fs path flt inc st \<and> fa_complete fs path flt inc st \<and> path_stack st = []"
proof -
  let ?I = "\<lambda>s. fa_inv fs path flt inc s \<and> fa_complete fs path flt inc s"
  have step: "\<And>s. ?I s \<Longrightarrow> path_stack s \<noteq> [] \<Longrightarrow> \<exists>s'. fa_body fs path flt inc s = Inr s' \<and> ?I s'"
    using fa_complete_step[OF af] by blast
  have "?I (fa_init path)" using fa_inv_init[OF dir] fa_complete_init by blast
  from fa_while_succeeds[where I = ?I, OF step this] show ?thesis by blast
qed

text \<open>With the stack empty, completeness reaches every directory and every qualifying entry.\<close>

lemma complete_all_dirs:
  assumes comp: "fa_complete fs path flt inc st" and emp: "path_stack st = []"
    and d: "os_path_isdir fs (path @ r)"
  shows "path @ r \<in> set (listed st)"
  using d
proof (induction r rule: rev_induct)
  case Nil
  from comp emp show ?case by (simp add: fa_complete_def)
next
  case (snoc x r)
  from exists_child[of fs "path @ r" x] snoc.prems have "os_path_isdir fs (path @ r)" by simp
  from snoc.IH[OF this] have "path @ r \<in> set (listed st)" .
  with comp emp snoc.prems show ?case
    unfolding fa_complete_def by (metis Un_empty_right append_assoc empty_set)
qed

lemma complete_all_entries:
  assumes comp: "fa_complete fs path flt inc st" and emp: "path_stack st = []"
    and e: "e \<noteq> []" and q: "qualifies fs flt inc (path @ e)"
  shows "e \<in> set (result st)"
proof -
  from e obtain r x where ex: "e = r @ [x]" by (metis rev_exhaust)
  from q have q': "qualifies fs flt inc ((path @ r) @ [x])" by (simp add: ex)
  from qualifies_child[OF q'] have "os_path_isdir fs (path @ r)" by blast
  from complete_all_dirs[OF comp emp this] have "path @ r \<in> set (listed st)" .
  with comp q' have "drop (length path) ((path @ r) @ [x]) \<in> set (result st)"
    unfolding fa_complete_def by blast
  then show ?thesis by (simp add: ex)
qed

lemma find_all_files_result:
  "fa_while fs path flt inc (fa_init path) = Some (Inr st)
     \<Longrightarrow> find_all_files fs path flt inc = Some (Inr (result st))"
  by (simp add: find_all_files_def)

lemma plain_lookup: "plain n \<Longrightarrow> lookup_node n r = Some m \<Longrightarrow> plain m"
proof (induction r arbitrary: n)
  case Nil
  then show ?case by simp
next
  case (Cons x r)
  from Cons.prems obtain es k where n: "n = Dir es" and k: "map_of es x = Some k"
    and m: "lookup_node k r = Some m"
    by (cases n) (auto split: option.splits)
  from k have "(x, k) \<in> set es" by (rule map_of_SomeD)
  with Cons.prems(1) n have "plain k" by auto
  from Cons.IH[OF this m] show ?case .
qed

lemma follow_not_link: "\<forall>t. n \<noteq> Symlink t \<Longrightarrow> follow fs (cp, n) = Some (cp, n)"
  by (cases n) (auto simp: follow_def)

lemma resolve_lookup:
  "lookup_node fs q = Some n \<Longrightarrow> \<forall>t. n \<noteq> Symlink t \<Longrightarrow> resolve fs q = Some (q, n)"
proof (induction q arbitrary: n rule: rev_induct)
  case Nil
  then show ?case by (simp add: resolve_def follow_not_link)
next
  case (snoc x p)
  from snoc.prems(1) obtain m where m: "lookup_node fs p = Some m" and x: "lookup_node m [x] = Some n"
    by (auto simp: lookup_node_append split: option.splits)
  from x obtain es where es: "m = Dir es" "map_of es x = Some n"
    by (cases m) (auto split: option.splits)
  have "resolve fs p = Some (p, Dir es)" using snoc.IH[OF m] es(1) by simp
  then show ?case
    using es(2) snoc.prems(2) by (simp add: resolve_snoc resolve_step_def follow_not_link)
qed

lemma resolve_plain:
  assumes at: "lookup_node fs path = Some t" and pl: "plain t"
  shows "resolve fs (path @ r) = map_option (\<lambda>n. (path @ r, n)) (lookup_node t r)"
proof (induction r rule: rev_induct)
  case Nil
  have "\<forall>l. t \<noteq> Symlink l" using pl by auto
  from resolve_lookup[OF at this] show ?case by simp
next
  case (snoc x r)
  have step: "resolve fs (path @ r @ [x]) = resolve_step fs x (resolve fs (path @ r))"
    using resolve_snoc[of fs "path @ r" x] by simp
  show ?case
  proof (cases "lookup_node t r")
    case None
    then show ?thesis by (simp add: step snoc.IH resolve_step_def lookup_node_append)
  next
    case (Some m)
    from plain_lookup[OF pl Some] have pm: "plain m" .
    show ?thesis
    proof (cases m)
      case File
      then show ?thesis by (simp add: step snoc.IH Some resolve_step_def lookup_node_append)
    next
      case (Symlink l)
      with pm show ?thesis by simp
    next
      case (Dir es)
      show ?thesis
      proof (cases "map_of es x")
        case None
        then show ?thesis
          by (simp add: step snoc.IH Some Dir resolve_step_def lookup_node_append)
      next
        case (Some k)
        then have "(x, k) \<in> set es" by (rule map_of_SomeD)
        with pm Dir have "plain k" by auto
        then have "\<forall>l. k \<noteq> Symlink l" by auto
        then show ?thesis
          using Some by (simp add: step snoc.IH \<open>lookup_node t r = Some m\<close> Dir resolve_step_def
              lookup_node_append follow_not_link)
      qed
    qed
  qed
qed

lemma plain_at_D:
  assumes "plain_at fs path"
  shows "\<exists>es. lookup_node fs path = Some (Dir es) \<and> plain (Dir es)"
proof (cases "lookup_node fs path")
  case None
  with assms show ?thesis by (simp add: plain_at_def)
next
  case (Some n)
  with assms show ?thesis by (cases n) (simp_all add: plain_at_def del: plain.simps)
qed

lemma plain_realpath:
  assumes "plain_at fs path" and "os_path_isdir fs (path @ r)"
  shows "os_path_realpath fs (path @ r) = path @ r"
proof -
  from plain_at_D[OF assms(1)] obtain es where es: "lookup_node fs path = Some (Dir es)"
    "plain (Dir es)" by blast
  note rs = resolve_plain[OF es, of r]
  from assms(2) obtain n where "lookup_node (Dir es) r = Some n"
    unfolding os_path_isdir_def rs by (cases "lookup_node (Dir es) r") auto
  then have "resolve fs (path @ r) = Some (path @ r, n)" unfolding rs by simp
  then show ?thesis unfolding os_path_realpath_def by simp
qed

lemma plain_alias_free: "plain_at fs path \<Longrightarrow> alias_free fs path"
  unfolding alias_free_def
proof (rule inj_onI)
  fix p q
  assume pl: "plain_at fs path"
    and p: "p \<in> {q. prefix path q \<and> os_path_isdir fs q}"
    and q: "q \<in> {q. prefix path q \<and> os_path_isdir fs q}"
    and eq: "os_path_realpath fs p = os_path_realpath fs q"
  from p have pd: "os_path_isdir fs p" and pp: "prefix path p" by simp_all
  from q have qd: "os_path_isdir fs q" and qp: "prefix path q" by simp_all
  from pp obtain rp where rp: "p = path @ rp" by (auto simp: prefix_def)
  from qp obtain rq where rq: "q = path @ rq" by (auto simp: prefix_def)
  have a: "os_path_realpath fs p = p"
    by (rule plain_realpath[OF pl pd[unfolded rp], folded rp])
  have b: "os_path_realpath fs q = q"
    by (rule plain_realpath[OF pl qd[unfolded rq], folded rq])
  from eq[unfolded a b] show "p = q" .
qed

lemma plain_isdir: "plain_at fs path \<Longrightarrow> os_path_isdir fs path"
proof -
  assume "plain_at fs path"
  from plain_at_D[OF this] obtain es where es: "lookup_node fs path = Some (Dir es)"
    "plain (Dir es)" by blast
  from resolve_plain[OF es, of "[]"] show ?thesis by (simp add: os_path_isdir_def)
qed

section \<open>Properties of the enumerator and of the stale list\<close>

text \<open>
  Claim C7. The enumerator terminates on every file system, symbolic-link cycles included:
  started on a directory its loop ends and returns the result list, started on anything
  else it ends with the error of \<open>os.listdir\<close>. The directories it lists have pairwise
  different canonical forms: each canonical directory is traversed at most once.
\<close>

theorem enumerator_terminates:
  "(os_path_isdir fs path \<longrightarrow>
      (\<exists>st. fa_while fs path flt include_dirs (fa_init path) = Some (Inr st)
          \<and> find_all_files fs path flt include_dirs = Some (Inr (result st))
          \<and> distinct (map (os_path_realpath fs) (listed st))))
   \<and> (\<not> os_path_isdir fs path \<longrightarrow>
        find_all_files fs path flt include_dirs = Some (Inl (OSError path)))"
proof (intro conjI impI)
  assume "os_path_isdir fs path"
  from fa_while_inv[OF this, of flt include_dirs] obtain st where
    st: "fa_while fs path flt include_dirs (fa_init path) = Some (Inr st)"
    and inv: "fa_inv fs path flt include_dirs st" by blast
  from inv have "distinct (map (os_path_realpath fs) (listed st))"
    unfolding fa_inv_def by blast
  with st find_all_files_result[OF st]
  show "\<exists>st. fa_while fs path flt include_dirs (fa_init path) = Some (Inr st)
          \<and> find_all_files fs path flt include_dirs = Some (Inr (result st))
          \<and> distinct (map (os_path_realpath fs) (listed st))" by blast
next
  assume "\<not> os_path_isdir fs path"
  from fa_while_not_dir[OF this, of flt include_dirs]
  show "find_all_files fs path flt include_dirs = Some (Inl (OSError path))"
    by (simp add: find_all_files_def)
qed

theorem enumerator_terminates_witness:
  "os_path_isdir example_links [''out'']
   \<and> os_path_realpath example_links [''out'', ''a'', ''loop''] = [''out'']
   \<and> find_all_files example_links [''out''] (\<lambda>f. True) True
       = Some (Inr [[''a''], [''b''], [''b'', ''f''], [''b'', ''loop'']])
   \<and> (\<exists>st. fa_while example_links [''out''] (\<lambda>f. True) True (fa_init [''out'']) = Some (Inr st)
          \<and> find_all_files example_links [''out''] (\<lambda>f. True) True = Some (Inr (result st))
          \<and> distinct (map (os_path_realpath example_links) (listed st)))"
proof -
  have d: "os_path_isdir example_links [''out'']" by code_simp
  have r: "os_path_realpath example_links [''out'', ''a'', ''loop''] = [''out'']" by code_simp
  have e: "find_all_files example_links [''out''] (\<lambda>f. True) True
       = Some (Inr [[''a''], [''b''], [''b'', ''f''], [''b'', ''loop'']])" by code_simp
  from enumerator_terminates[of example_links "[''out'']" "\<lambda>f. True" True] d
  have "\<exists>st. fa_while example_links [''out''] (\<lambda>f. True) True (fa_init [''out'']) = Some (Inr st)
          \<and> find_all_files example_links [''out''] (\<lambda>f. True) True = Some (Inr (result st))
          \<and> distinct (map (os_path_realpath example_links) (listed st))" by blast
  with d r e show ?thesis by blast
qed

lemma find_all_files_sorted:
  assumes "find_all_files fs path flt inc = Some (Inr xs)"
  shows "sorted_wrt (\<lambda>x y. \<not> strict_prefix y x) xs \<and> distinct xs"
proof (cases "os_path_isdir fs path")
  case True
  from fa_while_inv[OF this, of flt inc] obtain st where
    st: "fa_while fs path flt inc (fa_init path) = Some (Inr st)"
    and inv: "fa_inv fs path flt inc st" by blast
  from find_all_files_result[OF st] assms have "xs = result st" by simp
  with inv show ?thesis unfolding fa_inv_def by blast
next
  case False
  from fa_while_not_dir[OF this, of flt inc] assms show ?thesis
    by (simp add: find_all_files_def)
qed

text \<open>
  Claim C2. In the list of stale entries that \<open>find_stale_files\<close> produces, every entry
  stands strictly before each of its ancestor directories (and no entry stands twice), so a
  stale directory comes up for removal only after all of its stale children.
\<close>

theorem stale_children_first:
  assumes "find_stale_files fs path expected_files = Some (Inr stale)"
  shows "distinct stale
       \<and> (\<forall>i j. i < length stale \<and> j < length stale \<and> strict_prefix (stale ! j) (stale ! i)
             \<longrightarrow> i < j)"
proof -
  from assms obtain xs where xs: "find_all_files fs path (\<lambda>f. True) True = Some (Inr xs)"
    and stale: "stale = filter (\<lambda>f. f \<notin> expected_file_set path expected_files) (rev xs)"
    unfolding find_stale_files_def
    by (cases "find_all_files fs path (\<lambda>f. True) True") (auto simp: map_sum_def split: sum.splits)
  from find_all_files_sorted[OF xs] have s: "sorted_wrt (\<lambda>x y. \<not> strict_prefix y x) xs"
    and d: "distinct xs" by blast+
  from s have "sorted_wrt (\<lambda>x y. \<not> strict_prefix x y) (rev xs)" by (simp add: sorted_wrt_rev)
  then have ss: "sorted_wrt (\<lambda>x y. \<not> strict_prefix x y) stale"
    unfolding stale by (rule sorted_wrt_filter)
  have "i < j" if "i < length stale" "j < length stale" "strict_prefix (stale ! j) (stale ! i)"
    for i j
  proof (rule ccontr)
    assume "\<not> i < j"
    moreover have "i \<noteq> j" using that(3) by auto
    ultimately have "j < i" by simp
    with ss that(1) have "\<not> strict_prefix (stale ! j) (stale ! i)"
      by (simp add: sorted_wrt_iff_nth_less)
    with that(3) show False by simp
  qed
  moreover have "distinct stale" using d by (simp add: stale)
  ultimately show ?thesis by blast
qed

theorem stale_children_first_witness:
  "find_stale_files example_tree [] [[''a'', ''b'', ''c.html'']]
     = Some (Inr [[''a'', ''b'', ''stale.txt''], [''a'', ''stale_dir'', ''x.txt''], [''a'', ''stale_dir'']])
   \<and> strict_prefix [''a'', ''stale_dir''] [''a'', ''stale_dir'', ''x.txt'']
   \<and> distinct [[''a'', ''b'', ''stale.txt''], [''a'', ''stale_dir'', ''x.txt''], [''a'', ''stale_dir'']]"
proof -
  let ?stale = "[[''a'', ''b'', ''stale.txt''], [''a'', ''stale_dir'', ''x.txt''], [''a'', ''stale_dir'']]"
  have e: "find_stale_files example_tree [] [[''a'', ''b'', ''c.html'']] = Some (Inr ?stale)"
    by code_simp
  have sp: "strict_prefix (?stale ! 2) (?stale ! 1)" by (simp add: strict_prefix_def)
  from stale_children_first[OF e] have "distinct ?stale" by blast
  with e sp show ?thesis by (simp add: strict_prefix_def)
qed

text \<open>
  Claim C8, as it is stated, fails where two paths are aliases of one directory: in
  \<open>example_links\<close> the directory \<open>out/b\<close> is a link to \<open>out/a\<close>; the enumerator lists
  the contents under \<open>b\<close>, then skips \<open>a\<close>, whose canonical form is visited, and the
  regular file \<open>a/f\<close> is not in the result. With \<open>include_dirs\<close> the one canonical
  directory is in the result under both of its names.
\<close>

theorem enumerator_exactly_once_counterexample:
  "find_all_files example_links [''out''] (\<lambda>f. True) False = Some (Inr [[''b'', ''f'']])
   \<and> os_path_isfile example_links ([''out''] @ [''a'', ''f''])
   \<and> count_list [[''b'', ''f'']] [''a'', ''f''] = 0
   \<and> find_all_files example_links [''out''] (\<lambda>f. True) True
        = Some (Inr [[''a''], [''b''], [''b'', ''f''], [''b'', ''loop'']])
   \<and> os_path_realpath example_links ([''out''] @ [''a''])
        = os_path_realpath example_links ([''out''] @ [''b''])"
proof (intro conjI)
  show "find_all_files example_links [''out''] (\<lambda>f. True) False = Some (Inr [[''b'', ''f'']])"
    by code_simp
  show "os_path_isfile example_links ([''out''] @ [''a'', ''f''])" by code_simp
  show "count_list [[''b'', ''f'']] [''a'', ''f''] = 0" by simp
  show "find_all_files example_links [''out''] (\<lambda>f. True) True
        = Some (Inr [[''a''], [''b''], [''b'', ''f''], [''b'', ''loop'']])" by code_simp
  show "os_path_realpath example_links ([''out''] @ [''a''])
        = os_path_realpath example_links ([''out''] @ [''b''])" by code_simp
qed

text \<open>
  Claim C8, amended. Started on a directory, the enumerator returns a list in which no entry
  stands twice and every entry qualifies (a regular file that satisfies the predicate or,
  with \<open>include_dirs\<close>, a directory); when no two directory paths under the starting path
  have the same canonical form, the list holds every qualifying entry, so each qualifying
  entry appears exactly once.
\<close>

theorem enumerator_exactly_once:
  assumes "os_path_isdir fs path"
  shows "\<exists>xs. find_all_files fs path flt include_dirs = Some (Inr xs)
          \<and> distinct xs
          \<and> set xs \<subseteq> {e. e \<noteq> [] \<and> qualifies fs flt include_dirs (path @ e)}
          \<and> (alias_free fs path \<longrightarrow>
                set xs = {e. e \<noteq> [] \<and> qualifies fs flt include_dirs (path @ e)})"
proof -
  from fa_while_inv[OF assms, of flt include_dirs] obtain st where
    st: "fa_while fs path flt include_dirs (fa_init path) = Some (Inr st)"
    and inv: "fa_inv fs path flt include_dirs st" by blast
  have r: "find_all_files fs path flt include_dirs = Some (Inr (result st))"
    using st by (rule find_all_files_result)
  from inv have d: "distinct (result st)"
    and sound: "set (result st) \<subseteq> {e. e \<noteq> [] \<and> qualifies fs flt include_dirs (path @ e)}"
    unfolding fa_inv_def by blast+
  have "set (result st) = {e. e \<noteq> [] \<and> qualifies fs flt include_dirs (path @ e)}"
    if af: "alias_free fs path"
  proof -
    from fa_while_complete[OF assms af, of flt include_dirs] st obtain
      comp: "fa_complete fs path flt include_dirs st" and emp: "path_stack st = []" by auto
    from complete_all_entries[OF comp emp] sound show ?thesis by blast
  qed
  with r d sound show ?thesis by blast
qed

theorem enumerator_exactly_once_witness:
  "os_path_isdir example_tree [] \<and> alias_free example_tree []
   \<and> find_all_files example_tree [] (\<lambda>f. True) True
       = Some (Inr [[''a''], [''a'', ''b''], [''a'', ''stale_dir''], [''a'', ''stale_dir'', ''x.txt''],
                    [''a'', ''b'', ''c.html''], [''a'', ''b'', ''stale.txt'']])
   \<and> (\<exists>xs. find_all_files example_tree [] (\<lambda>f. True) True = Some (Inr xs)
          \<and> distinct xs
          \<and> set xs = {e. e \<noteq> [] \<and> qualifies example_tree (\<lambda>f. True) True ([] @ e)})"
proof -
  have pl: "plain_at example_tree []" by (simp add: plain_at_def example_tree_def)
  have d: "os_path_isdir example_tree []" using pl by (rule plain_isdir)
  have af: "alias_free example_tree []" using pl by (rule plain_alias_free)
  have e: "find_all_files example_tree [] (\<lambda>f. True) True
       = Some (Inr [[''a''], [''a'', ''b''], [''a'', ''stale_dir''], [''a'', ''stale_dir'', ''x.txt''],
                    [''a'', ''b'', ''c.html''], [''a'', ''b'', ''stale.txt'']])" by code_simp
  from enumerator_exactly_once[OF d, of "\<lambda>f. True" True] af
  have "\<exists>xs. find_all_files example_tree [] (\<lambda>f. True) True = Some (Inr xs)
          \<and> distinct xs
          \<and> set xs = {e. e \<noteq> [] \<and> qualifies example_tree (\<lambda>f. True) True ([] @ e)}" by blast
  with d af e show ?thesis by blast
qed

section \<open>Properties of the stale-file step\<close>

lemma map_of_map_if:
  "map_of (map (\<lambda>e. if fst e = y then (fst e, f (snd e)) else e) es) z
     = (if z = y then map_option f (map_of es z) else map_of es z)"
  by (induction es) auto

lemma map_of_filter_ne:
  "map_of (filter (\<lambda>e. fst e \<noteq> x) es) z = (if z = x then None else map_of es z)"
  by (induction es) auto

lemma leaf_lookup: "leaf k \<Longrightarrow> lookup_node k (y # ys) = None"
  by (auto simp: leaf_def)

lemma unlink_kinds:
  assumes "lookup_node c r = Some (Dir ds)" and "map_of ds x = Some k" and "leaf k"
  shows "map_option kind_of (lookup_node (unlink c r x) e)
       = (if e = r @ [x] then None else map_option kind_of (lookup_node c e))"
  using assms(1)
proof (induction r arbitrary: c e)
  case Nil
  then have c: "c = Dir ds" by simp
  show ?case
  proof (cases e)
    case Nil
    then show ?thesis by (simp add: c)
  next
    case (Cons z e')
    show ?thesis
    proof (cases "z = x")
      case True
      have "lookup_node c e = (if e' = [] then Some k else None)"
        using assms(2,3) by (cases e') (simp_all add: c Cons True leaf_lookup)
      then show ?thesis by (simp add: c Cons True map_of_filter_ne)
    next
      case False
      then show ?thesis by (simp add: c Cons map_of_filter_ne)
    qed
  qed
next
  case (Cons y r')
  from Cons.prems obtain es m where c: "c = Dir es" and m: "map_of es y = Some m"
    and l: "lookup_node m r' = Some (Dir ds)"
    by (cases c) (auto split: option.splits)
  show ?case
  proof (cases e)
    case Nil
    then show ?thesis by (simp add: c)
  next
    case e: (Cons z e')
    show ?thesis
    proof (cases "z = y")
      case True
      then show ?thesis
        using Cons.IH[OF l, of e']
        by (simp add: c e m map_of_map_if[where f = "\<lambda>n. unlink n r' x"])
    next
      case False
      then show ?thesis by (simp add: c e map_of_map_if[where f = "\<lambda>n. unlink n r' x"])
    qed
  qed
qed

lemma plain_unlink: "plain c \<Longrightarrow> plain (unlink c r x)"
proof (induction c r x rule: unlink.induct)
  case (1 es x)
  then show ?case by auto
next
  case (2 es y ys x)
  show ?case
    unfolding unlink.simps plain.simps
  proof
    fix e assume "e \<in> set (map (\<lambda>e. if fst e = y then (fst e, unlink (snd e) ys x) else e) es)"
    then have "e \<in> (\<lambda>e. if fst e = y then (fst e, unlink (snd e) ys x) else e) ` set es"
      by simp
    then obtain e0 where e: "e = (if fst e0 = y then (fst e0, unlink (snd e0) ys x) else e0)"
      and e0: "e0 \<in> set es" by (rule imageE)
    from "2.prems" e0 have p0: "plain (snd e0)" by simp
    show "plain (snd e)"
    proof (cases "fst e0 = y")
      case True
      from "2.IH"[OF e0 True p0] show ?thesis by (simp add: e True)
    next
      case False
      with p0 show ?thesis by (simp add: e)
    qed
  qed
qed simp_all

lemma unlink_at:
  "lookup_node fs p = Some c \<Longrightarrow> lookup_node (unlink fs (p @ r) x) p = Some (unlink c r x)"
proof (induction p arbitrary: fs)
  case Nil
  then show ?case by simp
next
  case (Cons y p)
  from Cons.prems obtain es m where fs: "fs = Dir es" and m: "map_of es y = Some m"
    and l: "lookup_node m p = Some c"
    by (cases fs) (auto split: option.splits)
  from Cons.IH[OF l] show ?case
    by (simp add: fs m map_of_map_if[where f = "\<lambda>n. unlink n (p @ r) x"])
qed

lemma empty_dir:
  assumes "lookup_node c s = Some (Dir cs)" and "\<And>y. lookup_node c (s @ [y]) = None"
  shows "cs = []"
proof (cases cs)
  case Nil
  then show ?thesis .
next
  case (Cons e cs')
  then have "map_of cs (fst e) = Some (snd e)" by (cases e) simp
  with assms(1) have "lookup_node c (s @ [fst e]) = Some (snd e)"
    by (simp add: lookup_node_append)
  with assms(2) show ?thesis by simp
qed

lemma kind_None: "map_option kind_of x = None \<longleftrightarrow> x = None"
  by simp

lemma isdir_plain:
  assumes "lookup_node fs target = Some c" and "plain c"
  shows "os_path_isdir fs (target @ e) \<longleftrightarrow> map_option kind_of (lookup_node c e) = Some Directory"
proof -
  note rs = resolve_plain[OF assms, of e]
  show ?thesis
  proof (cases "lookup_node c e")
    case None
    then show ?thesis unfolding os_path_isdir_def rs by simp
  next
    case (Some n)
    then show ?thesis unfolding os_path_isdir_def rs by (cases n) simp_all
  qed
qed

lemma isfile_plain:
  assumes "lookup_node fs target = Some c" and "plain c"
  shows "os_path_isfile fs (target @ e) \<longleftrightarrow> map_option kind_of (lookup_node c e) = Some RegularFile"
proof -
  note rs = resolve_plain[OF assms, of e]
  show ?thesis
  proof (cases "lookup_node c e")
    case None
    then show ?thesis unfolding os_path_isfile_def rs by simp
  next
    case (Some n)
    then show ?thesis unfolding os_path_isfile_def rs by (cases n) simp_all
  qed
qed

lemma plain_kind:
  assumes "plain c" and "lookup_node c e = Some n"
  shows "kind_of n = RegularFile \<or> kind_of n = Directory"
proof -
  from plain_lookup[OF assms] have "plain n" .
  then show ?thesis by (cases n) simp_all
qed

lemma delete_one:
  assumes at: "lookup_node fs target = Some c" and pl: "plain c" and ne: "s \<noteq> []"
    and ex: "lookup_node c s \<noteq> None" and nochild: "\<And>y. lookup_node c (s @ [y]) = None"
  shows "(if os_path_isdir fs (target @ s) then os_rmdir fs (target @ s)
          else os_remove fs (target @ s))
         = Inr (unlink fs (target @ butlast s) (last s))"
    and "lookup_node (unlink fs (target @ butlast s) (last s)) target
         = Some (unlink c (butlast s) (last s))"
    and "plain (unlink c (butlast s) (last s))"
    and "map_option kind_of (lookup_node (unlink c (butlast s) (last s)) e)
         = (if e = s then None else map_option kind_of (lookup_node c e))"
proof -
  from ex obtain k where k: "lookup_node c s = Some k" by blast
  have s: "butlast s @ [last s] = s" using ne by simp
  from k have "lookup_node c (butlast s @ [last s]) = Some k" unfolding s .
  then obtain m where m: "lookup_node c (butlast s) = Some m" and mk: "lookup_node m [last s] = Some k"
    by (auto simp: lookup_node_append split: option.splits)
  from mk obtain ds where ds: "m = Dir ds" and dk: "map_of ds (last s) = Some k"
    by (cases m) (auto split: option.splits)
  from plain_lookup[OF pl k] have pk: "plain k" .
  have lk: "leaf k"
  proof (cases k)
    case File
    then show ?thesis by (simp add: leaf_def)
  next
    case (Dir cs)
    from empty_dir[OF k[unfolded Dir] nochild] show ?thesis by (simp add: leaf_def Dir)
  next
    case (Symlink l)
    with pk show ?thesis by simp
  qed
  have bl: "butlast (target @ s) = target @ butlast s" "last (target @ s) = last s"
    "target @ s \<noteq> []"
    using ne by (simp_all add: butlast_append)
  have rs: "resolve fs (target @ butlast s) = Some (target @ butlast s, Dir ds)"
    using resolve_plain[OF at pl, of "butlast s"] m ds by simp
  have dir_iff: "os_path_isdir fs (target @ s) \<longleftrightarrow> k = Dir []"
    using isdir_plain[OF at pl, of s] k lk by (auto simp: leaf_def)
  show "(if os_path_isdir fs (target @ s) then os_rmdir fs (target @ s)
          else os_remove fs (target @ s))
         = Inr (unlink fs (target @ butlast s) (last s))"
  proof (cases "k = Dir []")
    case True
    then show ?thesis
      unfolding dir_iff os_rmdir_def bl rs using dk bl(3) by simp
  next
    case False
    with lk have "k = File" by (simp add: leaf_def)
    then show ?thesis
      unfolding dir_iff os_remove_def bl rs using dk bl(3) False by simp
  qed
  show "lookup_node (unlink fs (target @ butlast s) (last s)) target
         = Some (unlink c (butlast s) (last s))"
    using at by (rule unlink_at)
  show "plain (unlink c (butlast s) (last s))" using pl by (rule plain_unlink)
  show "map_option kind_of (lookup_node (unlink c (butlast s) (last s)) e)
         = (if e = s then None else map_option kind_of (lookup_node c e))"
    using unlink_kinds[OF m[unfolded ds] dk lk, of e] unfolding s .
qed

lemma delete_stale_plain:
  assumes "lookup_node fs target = Some c" and "plain c"
    and "\<forall>e. map_option kind_of (lookup_node c e)
             = (if e \<in> Dl then None else map_option kind_of (lookup_node t e))"
    and "distinct ys" and "set ys \<inter> Dl = {}"
    and "\<forall>s\<in>set ys. s \<noteq> [] \<and> lookup_node t s \<noteq> None"
    and "\<forall>pre s post y. ys = pre @ s # post \<longrightarrow> lookup_node t (s @ [y]) \<noteq> None
             \<longrightarrow> s @ [y] \<in> Dl \<union> set pre"
  shows "\<exists>fs' c'. delete_stale fs target ys = Inr fs' \<and> lookup_node fs' target = Some c'
           \<and> plain c'
           \<and> (\<forall>e. map_option kind_of (lookup_node c' e)
                  = (if e \<in> Dl \<union> set ys then None else map_option kind_of (lookup_node t e)))"
  using assms
proof (induction ys arbitrary: fs c Dl)
  case Nil
  then show ?case by auto
next
  case (Cons s rest)
  note at = Cons.prems(1) and pl = Cons.prems(2)
  have K: "map_option kind_of (lookup_node c e)
             = (if e \<in> Dl then None else map_option kind_of (lookup_node t e))" for e
    using Cons.prems(3) by blast
  have s_ne: "s \<noteq> []" and s_ex: "lookup_node t s \<noteq> None" using Cons.prems(6) by simp_all
  have s_nd: "s \<notin> Dl" using Cons.prems(5) by auto
  have ex: "lookup_node c s \<noteq> None"
    using K[of s] s_nd s_ex by (metis kind_None)
  have nochild: "lookup_node c (s @ [y]) = None" for y
  proof (cases "lookup_node t (s @ [y]) = None")
    case True
    with K[of "s @ [y]"] show ?thesis by (metis kind_None map_option_is_None)
  next
    case False
    have "s # rest = [] @ s # rest" by simp
    with Cons.prems(7) False have "s @ [y] \<in> Dl \<union> set []" by blast
    then have "s @ [y] \<in> Dl" by simp
    with K[of "s @ [y]"] show ?thesis by (metis kind_None)
  qed
  define fs1 where "fs1 = unlink fs (target @ butlast s) (last s)"
  define c1 where "c1 = unlink c (butlast s) (last s)"
  note d1 = delete_one[OF at pl s_ne ex nochild, folded fs1_def c1_def]
  have K1: "\<forall>e. map_option kind_of (lookup_node c1 e)
             = (if e \<in> insert s Dl then None else map_option kind_of (lookup_node t e))"
  proof
    fix e show "map_option kind_of (lookup_node c1 e)
             = (if e \<in> insert s Dl then None else map_option kind_of (lookup_node t e))"
      using d1(4)[of e] K[of e] by simp
  qed
  have dist: "distinct rest" and s_nr: "s \<notin> set rest" using Cons.prems(4) by simp_all
  have disj: "set rest \<inter> insert s Dl = {}" using Cons.prems(5) s_nr by auto
  have ex': "\<forall>s'\<in>set rest. s' \<noteq> [] \<and> lookup_node t s' \<noteq> None"
    using Cons.prems(6) by simp
  have cond': "\<forall>pre s' post y. rest = pre @ s' # post \<longrightarrow> lookup_node t (s' @ [y]) \<noteq> None
             \<longrightarrow> s' @ [y] \<in> insert s Dl \<union> set pre"
  proof (intro allI impI)
    fix pre s' post y
    assume a: "rest = pre @ s' # post" and b: "lookup_node t (s' @ [y]) \<noteq> None"
    from a have "s # rest = (s # pre) @ s' # post" by simp
    with Cons.prems(7) b have "s' @ [y] \<in> Dl \<union> set (s # pre)" by blast
    then show "s' @ [y] \<in> insert s Dl \<union> set pre" by auto
  qed
  from Cons.IH[OF d1(2) d1(3) K1 dist disj ex' cond']
  obtain fs' c' where r: "delete_stale fs1 target rest = Inr fs'"
    "lookup_node fs' target = Some c'" "plain c'"
    "\<forall>e. map_option kind_of (lookup_node c' e)
        = (if e \<in> insert s Dl \<union> set rest then None else map_option kind_of (lookup_node t e))"
    by blast
  have step: "delete_stale fs target (s # rest) = delete_stale fs1 target rest"
  proof (cases "os_path_isdir fs (target @ s)")
    case True
    with d1(1) have "os_rmdir fs (target @ s) = Inr fs1" by simp
    with True show ?thesis by (simp add: Let_def)
  next
    case False
    with d1(1) have "os_remove fs (target @ s) = Inr fs1" by simp
    with False show ?thesis by (simp add: Let_def)
  qed
  have "\<forall>e. map_option kind_of (lookup_node c' e)
        = (if e \<in> Dl \<union> set (s # rest) then None else map_option kind_of (lookup_node t e))"
    using r(4) by simp
  with step r(1,2,3) show ?case by metis
qed

lemma add_with_ancestors_eq:
  "add_with_ancestors p S = S \<union> {e. e \<noteq> [] \<and> prefix e p}"
proof (induction p S rule: add_with_ancestors.induct)
  case (1 p S)
  show ?case
  proof (cases "p = []")
    case True
    then show ?thesis by (subst add_with_ancestors.simps) auto
  next
    case False
    have split: "prefix e p \<longleftrightarrow> e = p \<or> prefix e (butlast p)" for e
      using prefix_snoc[of e "butlast p" "last p"] False by auto
    have "add_with_ancestors p S = add_with_ancestors (butlast p) (insert p S)"
      using False by (subst add_with_ancestors.simps) simp
    also have "\<dots> = insert p S \<union> {e. e \<noteq> [] \<and> prefix e (butlast p)}"
      using 1[OF False] .
    also have "\<dots> = S \<union> {e. e \<noteq> [] \<and> prefix e p}"
      using False split by auto
    finally show ?thesis .
  qed
qed

lemma fold_add_with_ancestors:
  "fold (\<lambda>t S. add_with_ancestors (os_path_relpath t path) S) T S
     = S \<union> {e. e \<noteq> [] \<and> (\<exists>t\<in>set T. prefix e (os_path_relpath t path))}"
proof (induction T arbitrary: S)
  case Nil
  show ?case by simp
next
  case (Cons t T)
  have "fold (\<lambda>t S. add_with_ancestors (os_path_relpath t path) S) (t # T) S
      = fold (\<lambda>t S. add_with_ancestors (os_path_relpath t path) S) T
          (add_with_ancestors (os_path_relpath t path) S)" by simp
  also have "\<dots> = add_with_ancestors (os_path_relpath t path) S
      \<union> {e. e \<noteq> [] \<and> (\<exists>t\<in>set T. prefix e (os_path_relpath t path))}"
    by (rule Cons.IH)
  also have "\<dots> = S \<union> {e. e \<noteq> [] \<and> (\<exists>t\<in>set (t # T). prefix e (os_path_relpath t path))}"
    unfolding add_with_ancestors_eq by auto
  finally show ?case .
qed

lemma expected_file_set_eq: "expected_file_set path T = expected_output_set path T"
  unfolding expected_file_set_def expected_output_set_def fold_add_with_ancestors by simp

lemma expected_output_set_closed:
  "e \<in> expected_output_set path T \<Longrightarrow> prefix e' e \<Longrightarrow> e' \<noteq> [] \<Longrightarrow> e' \<in> expected_output_set path T"
  unfolding expected_output_set_def by (auto intro: prefix_order.trans)

text \<open>
  With a symbolic link to a directory under the output root the step can delete an expected
  target. In \<open>example_alias\<close> the enumerator lists the files of \<open>d\<close> under \<open>ln\<close>
  only. With the expected targets \<open>out/d/k\<close> and \<open>out/ln/m\<close> the stale list is
  \<open>ln/k\<close> alone, the step returns without an error, and removing \<open>out/ln/k\<close> has
  removed the expected target \<open>out/d/k\<close>.
\<close>

theorem reconcile_removes_exactly_stale_counterexample:
  "reconcile example_alias [''out''] [[''out'', ''d'', ''k''], [''out'', ''ln'', ''m'']]
     = Some (Inr ([[''ln'', ''k'']],
                  Dir [(''out'', Dir [(''d'', Dir [(''m'', File)]),
                                      (''ln'', Symlink [''out'', ''d''])])]))
   \<and> [''d'', ''k''] \<in> expected_file_set [''out''] [[''out'', ''d'', ''k''], [''out'', ''ln'', ''m'']]
   \<and> [''d'', ''k''] \<in> expected_output_set [''out''] [[''out'', ''d'', ''k''], [''out'', ''ln'', ''m'']]
   \<and> os_path_isfile example_alias [''out'', ''d'', ''k'']
   \<and> \<not> os_path_isfile
          (Dir [(''out'', Dir [(''d'', Dir [(''m'', File)]), (''ln'', Symlink [''out'', ''d''])])])
          [''out'', ''d'', ''k'']"
proof (intro conjI)
  show "reconcile example_alias [''out''] [[''out'', ''d'', ''k''], [''out'', ''ln'', ''m'']]
     = Some (Inr ([[''ln'', ''k'']],
                  Dir [(''out'', Dir [(''d'', Dir [(''m'', File)]),
                                      (''ln'', Symlink [''out'', ''d''])])]))"
    by code_simp
  show in_set: "[''d'', ''k''] \<in> expected_file_set [''out'']
                 [[''out'', ''d'', ''k''], [''out'', ''ln'', ''m'']]"
    by code_simp
  show "[''d'', ''k''] \<in> expected_output_set [''out'']
          [[''out'', ''d'', ''k''], [''out'', ''ln'', ''m'']]"
    using in_set unfolding expected_file_set_eq .
  show "os_path_isfile example_alias [''out'', ''d'', ''k'']" by code_simp
  show "\<not> os_path_isfile
          (Dir [(''out'', Dir [(''d'', Dir [(''m'', File)]), (''ln'', Symlink [''out'', ''d''])])])
          [''out'', ''d'', ''k'']"
    by code_simp
qed

text \<open>
  Claim C1, amended. On an output root whose tree holds regular files and directories only
  (no symbolic links), the stale-file step succeeds; it deletes, each once, exactly the entries
  under the output root that are not in the expected output set (the expected targets made
  relative to the root, and their ancestor directories), and leaves a tree with the same
  files and directories but for these entries. For the expected target \<open>a/b/c.html\<close> and
  the tree with \<open>a/b/c.html\<close>, \<open>a/b/stale.txt\<close> and \<open>a/stale_dir/x.txt\<close> it deletes
  \<open>a/b/stale.txt\<close>, \<open>a/stale_dir/x.txt\<close> and \<open>a/stale_dir\<close> and keeps \<open>a\<close>,
  \<open>a/b\<close> and \<open>a/b/c.html\<close>.
\<close>

theorem reconcile_removes_exactly_stale:
  assumes "plain_at fs target"
  shows "\<exists>stale fs'. reconcile fs target expected_files = Some (Inr (stale, fs'))
     \<and> distinct stale
     \<and> set stale = {e. e \<noteq> [] \<and> (os_path_isfile fs (target @ e) \<or> os_path_isdir fs (target @ e))
                        \<and> e \<notin> expected_output_set target expected_files}
     \<and> (\<forall>e. os_path_isfile fs' (target @ e) \<longleftrightarrow>
              os_path_isfile fs (target @ e) \<and> e \<in> expected_output_set target expected_files)
     \<and> (\<forall>e. os_path_isdir fs' (target @ e) \<longleftrightarrow>
              os_path_isdir fs (target @ e)
              \<and> (e = [] \<or> e \<in> expected_output_set target expected_files))"
proof -
  define keep where "keep = expected_output_set target expected_files"
  from plain_at_D[OF assms] obtain es where at: "lookup_node fs target = Some (Dir es)"
    and pl: "plain (Dir es)" by blast
  define t where "t = Dir es"
  note at = at[folded t_def] and pl = pl[folded t_def]
  have dir: "os_path_isdir fs target" using assms by (rule plain_isdir)
  have af: "alias_free fs target" using assms by (rule plain_alias_free)
  from fa_while_complete[OF dir af, of "\<lambda>f. True" True] obtain st where
    st: "fa_while fs target (\<lambda>f. True) True (fa_init target) = Some (Inr st)"
    and inv: "fa_inv fs target (\<lambda>f. True) True st"
    and comp: "fa_complete fs target (\<lambda>f. True) True st" and emp: "path_stack st = []"
    by blast
  define xs where "xs = result st"
  have fa: "find_all_files fs target (\<lambda>f. True) True = Some (Inr xs)"
    unfolding xs_def using st by (rule find_all_files_result)
  have ex_iff: "os_path_isfile fs (target @ e) \<or> os_path_isdir fs (target @ e)
                 \<longleftrightarrow> lookup_node t e \<noteq> None" for e
  proof (cases "lookup_node t e")
    case None
    then show ?thesis by (simp add: isfile_plain[OF at pl] isdir_plain[OF at pl])
  next
    case (Some n)
    from plain_kind[OF pl Some] Some show ?thesis
      by (auto simp: isfile_plain[OF at pl] isdir_plain[OF at pl])
  qed
  have q_iff: "qualifies fs (\<lambda>f. True) True (target @ e) \<longleftrightarrow> lookup_node t e \<noteq> None" for e
    using ex_iff[of e] by (simp add: qualifies_def)
  have set_xs: "set xs = {e. e \<noteq> [] \<and> lookup_node t e \<noteq> None}"
  proof -
    from inv have "set xs \<subseteq> {e. e \<noteq> [] \<and> qualifies fs (\<lambda>f. True) True (target @ e)}"
      unfolding fa_inv_def xs_def by blast
    moreover have "e \<in> set xs" if "e \<noteq> []" "qualifies fs (\<lambda>f. True) True (target @ e)" for e
      unfolding xs_def using comp emp that by (rule complete_all_entries)
    ultimately show ?thesis unfolding q_iff by blast
  qed
  from inv have d_xs: "distinct xs" and s_xs: "sorted_wrt (\<lambda>x y. \<not> strict_prefix y x) xs"
    unfolding fa_inv_def xs_def by blast+
  define ys where "ys = filter (\<lambda>f. f \<notin> keep) (rev xs)"
  have fs_ys: "find_stale_files fs target expected_files = Some (Inr ys)"
    unfolding find_stale_files_def fa ys_def keep_def expected_file_set_eq by simp
  have d_ys: "distinct ys" unfolding ys_def using d_xs by simp
  have set_ys: "set ys = {e. e \<noteq> [] \<and> lookup_node t e \<noteq> None \<and> e \<notin> keep}"
    unfolding ys_def using set_xs by auto
  have s_ys: "sorted_wrt (\<lambda>x y. \<not> strict_prefix x y) ys"
    unfolding ys_def using s_xs by (intro sorted_wrt_filter) (simp add: sorted_wrt_rev)
  have K0: "\<forall>e. map_option kind_of (lookup_node t e)
             = (if e \<in> {} then None else map_option kind_of (lookup_node t e))" by simp
  have ex_ys: "\<forall>s\<in>set ys. s \<noteq> [] \<and> lookup_node t s \<noteq> None" using set_ys by blast
  have cond: "\<forall>pre s post y. ys = pre @ s # post \<longrightarrow> lookup_node t (s @ [y]) \<noteq> None
             \<longrightarrow> s @ [y] \<in> {} \<union> set pre"
  proof (intro allI impI)
    fix pre s post y
    assume dec: "ys = pre @ s # post" and child: "lookup_node t (s @ [y]) \<noteq> None"
    have s_in: "s \<in> set ys" using dec by simp
    then have s_ne: "s \<noteq> []" and s_nk: "s \<notin> keep" using set_ys by auto
    have "s @ [y] \<notin> keep"
    proof
      assume "s @ [y] \<in> keep"
      from expected_output_set_closed[OF this[unfolded keep_def], of s] s_ne
      have "s \<in> keep" by (simp add: keep_def)
      with s_nk show False by simp
    qed
    with child have "s @ [y] \<in> set ys" using set_ys by simp
    moreover have "s @ [y] \<noteq> s" by simp
    moreover have "s @ [y] \<notin> set post"
    proof
      assume "s @ [y] \<in> set post"
      with s_ys[unfolded dec] have "\<not> strict_prefix s (s @ [y])"
        by (simp add: sorted_wrt_append)
      then show False by (simp add: strict_prefix_def)
    qed
    ultimately show "s @ [y] \<in> {} \<union> set pre" unfolding dec by auto
  qed
  have disj: "set ys \<inter> {} = {}" by simp
  from delete_stale_plain[OF at pl K0 d_ys disj ex_ys cond]
  obtain fs' c' where del: "delete_stale fs target ys = Inr fs'"
    and at': "lookup_node fs' target = Some c'" and pl': "plain c'"
    and K': "\<forall>e. map_option kind_of (lookup_node c' e)
                = (if e \<in> {} \<union> set ys then None else map_option kind_of (lookup_node t e))"
    by blast
  have rec: "reconcile fs target expected_files = Some (Inr (ys, fs'))"
    unfolding reconcile_def fs_ys using del by simp
  have t_dir: "map_option kind_of (lookup_node t []) = Some Directory" by (simp add: t_def)
  have files: "os_path_isfile fs' (target @ e) \<longleftrightarrow> os_path_isfile fs (target @ e) \<and> e \<in> keep" for e
  proof (cases "e = []")
    case True
    have "[] \<notin> set ys" using set_ys by simp
    then have "map_option kind_of (lookup_node c' []) = Some Directory"
      using K'[rule_format, of "[]"] t_dir by simp
    then have "\<not> os_path_isfile fs' (target @ [])"
      unfolding isfile_plain[OF at' pl'] by simp
    moreover have "\<not> os_path_isfile fs (target @ [])"
      unfolding isfile_plain[OF at pl] using t_dir by simp
    ultimately show ?thesis unfolding True by blast
  next
    case False
    then show ?thesis
      using K'[rule_format, of e] set_ys
      by (auto simp: isfile_plain[OF at' pl'] isfile_plain[OF at pl])
  qed
  have dirs: "os_path_isdir fs' (target @ e) \<longleftrightarrow> os_path_isdir fs (target @ e) \<and> (e = [] \<or> e \<in> keep)"
    for e
    using K'[rule_format, of e] set_ys
    by (auto simp: isdir_plain[OF at' pl'] isdir_plain[OF at pl])
  have stale_set: "set ys = {e. e \<noteq> [] \<and> (os_path_isfile fs (target @ e) \<or> os_path_isdir fs (target @ e))
                        \<and> e \<notin> keep}"
    unfolding set_ys ex_iff ..
  show ?thesis
    unfolding keep_def[symmetric]
    using rec d_ys stale_set files dirs by blast
qed

theorem reconcile_removes_exactly_stale_witness:
  "plain_at example_tree []
   \<and> reconcile example_tree [] [[''a'', ''b'', ''c.html'']]
       = Some (Inr ([[''a'', ''b'', ''stale.txt''], [''a'', ''stale_dir'', ''x.txt''], [''a'', ''stale_dir'']],
                    Dir [(''a'', Dir [(''b'', Dir [(''c.html'', File)])])]))
   \<and> (\<exists>stale fs'. reconcile example_tree [] [[''a'', ''b'', ''c.html'']] = Some (Inr (stale, fs'))
         \<and> distinct stale
         \<and> set stale = {e. e \<noteq> [] \<and> (os_path_isfile example_tree ([] @ e) \<or> os_path_isdir example_tree ([] @ e))
                            \<and> e \<notin> expected_output_set [] [[''a'', ''b'', ''c.html'']]})"
proof -
  have pl: "plain_at example_tree []" by (simp add: plain_at_def example_tree_def)
  have e: "reconcile example_tree [] [[''a'', ''b'', ''c.html'']]
       = Some (Inr ([[''a'', ''b'', ''stale.txt''], [''a'', ''stale_dir'', ''x.txt''], [''a'', ''stale_dir'']],
                    Dir [(''a'', Dir [(''b'', Dir [(''c.html'', File)])])]))"
    by code_simp
  from reconcile_removes_exactly_stale[OF pl, of "[[''a'', ''b'', ''c.html'']]"]
  have "\<exists>stale fs'. reconcile example_tree [] [[''a'', ''b'', ''c.html'']] = Some (Inr (stale, fs'))
         \<and> distinct stale
         \<and> set stale = {e. e \<noteq> [] \<and> (os_path_isfile example_tree ([] @ e) \<or> os_path_isdir example_tree ([] @ e))
                            \<and> e \<notin> expected_output_set [] [[''a'', ''b'', ''c.html'']]}"
    by blast
  with pl e show ?thesis by blast
qed

section \<open>Properties of the main program\<close>

lemma run_stages_failure:
  "run_stages stages w log = (w', log', Some e) \<Longrightarrow>
     \<exists>before infos stage after w0 log0 out.
        stages = before @ (infos, stage) # after
      \<and> run_stages before w log = (w0, log0, None)
      \<and> stage w0 = (w', out, Some e)
      \<and> log' = log0 @ infos @ out"
proof (induction stages arbitrary: w log)
  case Nil
  then show ?case by simp
next
  case (Cons st stages)
  obtain infos stage where st: "st = (infos, stage)" by (cases st)
  obtain w1 out err where run: "stage w = (w1, out, err)" by (cases "stage w")
  show ?case
  proof (cases err)
    case (Some e1)
    with Cons.prems st run have "w' = w1" "log' = log @ infos @ out" "e = e1" by simp_all
    with st run Some have
      "st # stages = [] @ (infos, stage) # stages \<and> run_stages [] w log = (w, log, None)
       \<and> stage w = (w', out, Some e) \<and> log' = log @ infos @ out" by simp
    then show ?thesis by blast
  next
    case None
    with Cons.prems st run have "run_stages stages w1 (log @ infos @ out) = (w', log', Some e)"
      by simp
    from Cons.IH[OF this] obtain before infos' stage' after w0 log0 out' where r:
      "stages = before @ (infos', stage') # after"
      "run_stages before w1 (log @ infos @ out) = (w0, log0, None)"
      "stage' w0 = (w', out', Some e)" "log' = log0 @ infos' @ out'" by blast
    have "st # stages = (st # before) @ (infos', stage') # after" using r(1) by simp
    moreover have "run_stages (st # before) w log = (w0, log0, None)"
      using st run None r(2) by simp
    ultimately show ?thesis using r(3,4) by blast
  qed
qed

theorem failure_logged_exit_zero_counterexample:
  "run_stages (try_block bad_target_pipeline) () []
     = ((), [], Some (Exception ''Target must be a directory!''))
   \<and> final_log (main bad_target_pipeline ())
     = [ErrorWithTraceback [] (Exception ''Target must be a directory!'')]
   \<and> exit_status (main bad_target_pipeline ()) = 0"
  by (simp add: main_def try_block_def bad_target_pipeline_def target_not_directory_def)

text \<open>
  Claim C9, amended. When a stage of the pipeline fails, the run stops at the first failing
  stage: the stages before it have run without an exception, no later stage runs, and the
  world is as the failing stage left it. The exception reaches the handler of the main
  program, which logs it with its traceback; the process then ends with exit status 0.
\<close>

theorem failure_logged_exit_zero:
  assumes "run_stages (try_block p) w [] = (w', log', Some e)"
  shows "main p w = \<lparr>final_world = w', final_log = log' @ [ErrorWithTraceback [] e], exit_status = 0\<rparr>
       \<and> (\<exists>before infos stage after w0 log0 out.
             try_block p = before @ (infos, stage) # after
           \<and> run_stages before w [] = (w0, log0, None)
           \<and> stage w0 = (w', out, Some e)
           \<and> log' = log0 @ infos @ out)"
  using assms run_stages_failure[OF assms] by (simp add: main_def)

theorem failure_logged_exit_zero_witness:
  "run_stages (try_block unresolved_pipeline) () []
     = ((), [Info ''Building HTML from Markdown...'', Info ''Scanning HTML dependencies...'',
             Info ''Resolving dependencies...''],
        Some (Exception ''Cannot resolve dependency \"img/x.png\"''))
   \<and> main unresolved_pipeline ()
     = \<lparr>final_world = (),
        final_log = [Info ''Building HTML from Markdown...'', Info ''Scanning HTML dependencies...'',
                     Info ''Resolving dependencies...'']
                    @ [ErrorWithTraceback [] (Exception ''Cannot resolve dependency \"img/x.png\"'')],
        exit_status = 0\<rparr>"
proof -
  have r: "run_stages (try_block unresolved_pipeline) () []
     = ((), [Info ''Building HTML from Markdown...'', Info ''Scanning HTML dependencies...'',
             Info ''Resolving dependencies...''],
        Some (Exception ''Cannot resolve dependency \"img/x.png\"''))"
    by (simp add: try_block_def unresolved_pipeline_def missing_dependency_def succeeding_stage_def)
  from failure_logged_exit_zero[OF r] r show ?thesis by blast
qed

end
